theory Spec2Isabelle
  imports Main
begin

section \<open>Shared values\<close>

text \<open>
  Timestamps are the integer millisecond counts of \<^verbatim>\<open>Date.now()\<close> and are modelled as
  \<^typ>\<open>int\<close>. A JavaScript exception value is reduced to the three views the source takes
  of it: \<^verbatim>\<open>ex?.message\<close>, \<^verbatim>\<open>String(ex)\<close> and \<^verbatim>\<open>ex?.response?.statusText\<close>.
  A computation that may throw (or, for an async function, reject) returns a sum whose
  \<open>Inl\<close> carries the exception.
\<close>

record js_error =
  message :: "string option"
  as_string :: string
  statusText :: "string option"

datatype log_entry = Debug string | Error string

text \<open>Decimal rendering of an integer, as a template literal prints a whole number.\<close>

fun show_nat :: "nat \<Rightarrow> string" where
  "show_nat n =
     (if n < 10 then [char_of (48 + n)]
      else show_nat (n div 10) @ [char_of (48 + n mod 10)])"

declare show_nat.simps [simp del]

definition show_int :: "int \<Rightarrow> string" where
  "show_int i = (if i < 0 then CHR ''-'' # show_nat (nat (- i)) else show_nat (nat i))"

text \<open>A template literal prints a missing value as the word undefined.\<close>

definition show_opt :: "string option \<Rightarrow> string" where
  "show_opt x = (case x of None \<Rightarrow> ''undefined'' | Some t \<Rightarrow> t)"

section \<open>IMessageListener\<close>

record poll_result =
  eventType :: string
  data :: string

type_synonym IMessagePoller = "int \<Rightarrow> js_error + poll_result list"

text \<open>
  The listener object. \<open>processLock\<close> is the number of free permits of the semaphore
  (\<^verbatim>\<open>new Sema(1)\<close>). The remaining fields record the effects of a cycle: the log, the
  Pollers invoked (registration index and the date passed), the results handed to
  \<^verbatim>\<open>emit\<close>, the number of \<^verbatim>\<open>trimCaches\<close> calls and the milliseconds spent in
  \<^verbatim>\<open>waitMs\<close>.
\<close>

record listener =
  stopped :: bool
  processLock :: nat
  pollers :: "IMessagePoller list"
  lastCheck :: int
  log :: "log_entry list"
  polled :: "(nat \<times> int) list"
  emitted :: "poll_result list"
  trims :: nat
  slept :: nat

text \<open>
  What a cycle meets outside the listener: the clock reading taken after the lock is
  acquired, the behaviour of the in-process listeners behind \<^verbatim>\<open>emit\<close> (which may throw),
  the behaviour of \<^verbatim>\<open>cache.trimCaches()\<close> and the semaphore's count of waiters.
\<close>

record cycle_env =
  now :: int
  emit :: "poll_result \<Rightarrow> js_error option"
  trimCaches :: "js_error option"
  nrWaiting :: nat

definition new_listener :: listener where
  "new_listener =
     \<lparr>stopped = False, processLock = 1, pollers = [], lastCheck = 0, log = [],
      polled = [], emitted = [], trims = 0, slept = 0\<rparr>"

definition addPoller :: "IMessagePoller \<Rightarrow> listener \<Rightarrow> listener" where
  "addPoller poller s = s\<lparr>pollers := pollers s @ [poller]\<rparr>"

definition acquire :: "listener \<Rightarrow> listener option" where
  "acquire s =
     (if processLock s = 0 then None else Some (s\<lparr>processLock := processLock s - 1\<rparr>))"

definition release :: "listener \<Rightarrow> listener" where
  "release s = s\<lparr>processLock := processLock s + 1\<rparr>"

text \<open>The inner loop of \<^verbatim>\<open>poll\<close>: emit each result, then wait 10 ms.\<close>

fun emit_results :: "cycle_env \<Rightarrow> poll_result list \<Rightarrow> listener \<Rightarrow> (js_error + unit) \<times> listener" where
  "emit_results env [] s = (Inr (), s)"
| "emit_results env (r # rs) s =
     (let s1 = s\<lparr>emitted := emitted s @ [r]\<rparr> in
      case emit env r of
        Some e \<Rightarrow> (Inl e, s1)
      | None \<Rightarrow> emit_results env rs (s1\<lparr>slept := slept s1 + 10\<rparr>))"

text \<open>The outer loop of \<^verbatim>\<open>poll\<close>, over the Pollers paired with their registration index.\<close>

fun poll_loop ::
  "cycle_env \<Rightarrow> int \<Rightarrow> bool \<Rightarrow> (nat \<times> IMessagePoller) list \<Rightarrow> listener
     \<Rightarrow> (js_error + unit) \<times> listener" where
  "poll_loop env after emitResults [] s = (Inr (), s)"
| "poll_loop env after emitResults ((i, poller) # ps) s =
     (let s1 = s\<lparr>polled := polled s @ [(i, after)]\<rparr> in
      case poller after of
        Inl e \<Rightarrow> (Inl e, s1)
      | Inr results \<Rightarrow>
          if emitResults then
            (case emit_results env results s1 of
               (Inl e, s2) \<Rightarrow> (Inl e, s2)
             | (Inr u, s2) \<Rightarrow> poll_loop env after emitResults ps s2)
          else poll_loop env after emitResults ps s1)"

definition poll :: "cycle_env \<Rightarrow> int \<Rightarrow> bool \<Rightarrow> listener \<Rightarrow> (js_error + unit) \<times> listener" where
  "poll env after emitResults s = poll_loop env after emitResults (enumerate 0 (pollers s)) s"

text \<open>The window computation of \<^verbatim>\<open>handleFallbackPoll\<close> (lines 205 to 208).\<close>

definition fallbackAfterTime :: "int \<Rightarrow> int \<Rightarrow> int" where
  "fallbackAfterTime lastCheck0 now0 =
     (let afterTime = lastCheck0 - 30000 in
      if afterTime > now0 \<or> afterTime \<le> 0 then now0 - 60000 else afterTime)"

text \<open>
  \<^verbatim>\<open>handleFallbackPoll\<close>. \<open>None\<close> stands for a caller that waits at \<^verbatim>\<open>acquire\<close> because
  no permit is free. The \<^verbatim>\<open>catch\<close> block logs, the \<^verbatim>\<open>finally\<close> block releases.
\<close>

definition handleFallbackPoll :: "cycle_env \<Rightarrow> listener \<Rightarrow> listener option" where
  "handleFallbackPoll env s =
     (case acquire s of
        None \<Rightarrow> None
      | Some s1 \<Rightarrow>
          (let now0 = now env;
               afterTime = fallbackAfterTime (lastCheck s1) now0;
               s3 = (case poll env afterTime True s1 of
                       (Inl e, s2) \<Rightarrow>
                         s2\<lparr>log := log s2 @ [Error (''Error in fallback poll: '' @ as_string e)]\<rparr>
                     | (Inr u, s2) \<Rightarrow>
                         (let s2a = s2\<lparr>lastCheck := now0, trims := trims s2 + 1\<rparr> in
                          case trimCaches env of
                            Some e \<Rightarrow>
                              s2a\<lparr>log := log s2a @
                                    [Error (''Error in fallback poll: '' @ as_string e)]\<rparr>
                          | None \<Rightarrow> s2a))
           in Some (release s3)))"

text \<open>
  The clamping of \<^verbatim>\<open>prevTime\<close> in \<^verbatim>\<open>handleChangeEvent\<close> (lines 224 to 232), with the
  debug line it writes, and the window computed from it (lines 234 to 237).
\<close>

definition changePrevTime :: "int \<Rightarrow> int \<Rightarrow> int \<times> log_entry list" where
  "changePrevTime lastCheck0 now0 =
     (let prevTime = lastCheck0 in
      if prevTime \<le> 0 \<or> prevTime > now0 then
        (now0, [Debug (''Previous time is invalid ('' @ show_int prevTime @
                       ''), setting to now...'')])
      else if now0 - prevTime > 86400000 then
        (now0 - 86400000, [Debug ''Previous time is > 24 hours ago, setting to 24 hours ago...''])
      else (prevTime, []))"

definition changeAfterTime :: "int \<Rightarrow> int \<Rightarrow> int" where
  "changeAfterTime lastCheck0 now0 =
     (let prevTime = fst (changePrevTime lastCheck0 now0);
          afterTime = prevTime - 30000
      in if afterTime > now0 then now0 else afterTime)"

text \<open>
  The body of \<^verbatim>\<open>handleChangeEvent\<close>, as the debounce decorator runs it when it fires.
\<close>

definition handleChangeEvent :: "cycle_env \<Rightarrow> listener \<Rightarrow> listener option" where
  "handleChangeEvent env s =
     (case acquire s of
        None \<Rightarrow> None
      | Some s0 \<Rightarrow>
          (let now0 = now env;
               s1 = s0\<lparr>log := log s0 @ snd (changePrevTime (lastCheck s0) now0)\<rparr>;
               afterTime = changeAfterTime (lastCheck s1) now0;
               s3 = (case poll env afterTime True s1 of
                       (Inl e, s2) \<Rightarrow>
                         s2\<lparr>log := log s2 @ [Error (''Error handling change event: '' @ as_string e)]\<rparr>
                     | (Inr u, s2) \<Rightarrow>
                         (let s2a = s2\<lparr>lastCheck := now0, trims := trims s2 + 1\<rparr> in
                          case trimCaches env of
                            Some e \<Rightarrow>
                              s2a\<lparr>log := log s2a @
                                    [Error (''Error handling change event: '' @ as_string e)]\<rparr>
                          | None \<Rightarrow>
                              if nrWaiting env > 0 then s2a\<lparr>slept := slept s2a + 100\<rparr> else s2a))
           in Some (release s3)))"

text \<open>
  A sequence of cycles, each entered by one of the two triggers once the previous one has
  returned.
\<close>

datatype trigger = Debounced | Fallback

definition run_cycle :: "trigger \<times> cycle_env \<Rightarrow> listener \<Rightarrow> listener option" where
  "run_cycle c s =
     (case fst c of
        Debounced \<Rightarrow> handleChangeEvent (snd c) s
      | Fallback \<Rightarrow> handleFallbackPoll (snd c) s)"

fun run_cycles :: "(trigger \<times> cycle_env) list \<Rightarrow> listener \<Rightarrow> listener option" where
  "run_cycles [] s = Some s"
| "run_cycles (c # cs) s =
     (case run_cycle c s of None \<Rightarrow> None | Some s' \<Rightarrow> run_cycles cs s')"

text \<open>
  The rule for the debounced window in the words of the specification, to be compared
  with \<open>changeAfterTime\<close>.
\<close>

definition spec_debounced_lower_bound :: "int \<Rightarrow> int \<Rightarrow> int" where
  "spec_debounced_lower_bound lastCheck0 now0 =
     (let prev = lastCheck0;
          prev = (if prev \<le> 0 \<or> prev > now0 then now0
                  else if now0 - prev > 86400000 then now0 - 86400000
                  else prev);
          lowerBound = prev - 30000
      in min lowerBound now0)"

text \<open>
  Vocabulary for statements about a cycle: the dates passed to the Pollers between two
  states of the listener, and the window and the log prefix of each trigger.
\<close>

definition dates_passed :: "listener \<Rightarrow> listener \<Rightarrow> int list" where
  "dates_passed s s' = map snd (drop (length (polled s)) (polled s'))"

definition cycle_afterTime :: "trigger \<Rightarrow> int \<Rightarrow> int \<Rightarrow> int" where
  "cycle_afterTime trig lastCheck0 now0 =
     (case trig of
        Debounced \<Rightarrow> changeAfterTime lastCheck0 now0
      | Fallback \<Rightarrow> fallbackAfterTime lastCheck0 now0)"

definition cycle_error_text :: "trigger \<Rightarrow> string" where
  "cycle_error_text trig =
     (case trig of
        Debounced \<Rightarrow> ''Error handling change event: ''
      | Fallback \<Rightarrow> ''Error in fallback poll: '')"

text \<open>A Poller raises at a date, or returns results whose emission all succeeds.\<close>

definition poller_ok :: "cycle_env \<Rightarrow> int \<Rightarrow> IMessagePoller \<Rightarrow> bool" where
  "poller_ok env after poller =
     (case poller after of Inl e \<Rightarrow> False | Inr rs \<Rightarrow> list_all (\<lambda>r. emit env r = None) rs)"

section \<open>WebhookService\<close>

record Webhook =
  url :: string
  events :: string

record CachedWebhook =
  webhook :: Webhook
  eventTypes :: "string list"

record WebhookEvent =
  type :: string
  data :: string

text \<open>
  The service object: the cache and its expiry, followed by the recorded effects: the
  debug log, the number of reads of the store, the strings handed to \<^verbatim>\<open>JSON.parse\<close> and
  the requests handed to \<^verbatim>\<open>axios.post\<close> (target and event).
\<close>

record WebhookService =
  webhookCache :: "CachedWebhook list option"
  cacheExpiry :: int
  debug_log :: "log_entry list"
  store_reads :: nat
  parsed :: "string list"
  posts :: "(string \<times> WebhookEvent) list"

text \<open>
  What a call of \<^verbatim>\<open>dispatch\<close> meets outside the service: the clock, the outcome of
  \<^verbatim>\<open>Server().repo.getWebhooks()\<close>, the behaviour of \<^verbatim>\<open>JSON.parse\<close> on a stored string
  (a throw, or the decoded list of strings the store contract and the cast to
  \<^verbatim>\<open>string[]\<close> promise) and the outcome of each request, by its position among the
  requests of the call. Stored strings that parse to a value of another kind are the
  subject of the section on filter lists outside the declared type; on lists of strings
  the two descriptions agree (\<open>dispatch_json_typed\<close>).
\<close>

record dispatch_env =
  clock :: int
  getWebhooks :: "js_error + Webhook list"
  JSON_parse :: "string \<Rightarrow> js_error + string list"
  axios_post :: "nat \<Rightarrow> string \<Rightarrow> WebhookEvent \<Rightarrow> js_error option"

definition CACHE_TTL_MS :: int where
  "CACHE_TTL_MS = 30000"

definition new_service :: WebhookService where
  "new_service =
     \<lparr>webhookCache = None, cacheExpiry = 0, debug_log = [], store_reads = 0, parsed = [],
      posts = []\<rparr>"

definition invalidateCache :: "WebhookService \<Rightarrow> WebhookService" where
  "invalidateCache s = s\<lparr>webhookCache := None, cacheExpiry := 0\<rparr>"

text \<open>The \<^verbatim>\<open>map\<close> of line 48: one \<^verbatim>\<open>JSON.parse\<close> per registration, stopping at a throw.\<close>

fun parse_webhooks ::
  "dispatch_env \<Rightarrow> Webhook list \<Rightarrow> WebhookService \<Rightarrow> (js_error + CachedWebhook list) \<times> WebhookService" where
  "parse_webhooks env [] s = (Inr [], s)"
| "parse_webhooks env (w # ws) s =
     (let s1 = s\<lparr>parsed := parsed s @ [events w]\<rparr> in
      case JSON_parse env (events w) of
        Inl e \<Rightarrow> (Inl e, s1)
      | Inr ts \<Rightarrow>
          (case parse_webhooks env ws s1 of
             (Inl e, s2) \<Rightarrow> (Inl e, s2)
           | (Inr cws, s2) \<Rightarrow> (Inr (\<lparr>webhook = w, eventTypes = ts\<rparr> # cws), s2)))"

definition getWebhooksWithCache ::
  "dispatch_env \<Rightarrow> WebhookService \<Rightarrow> (js_error + CachedWebhook list) \<times> WebhookService" where
  "getWebhooksWithCache env s =
     (let now0 = clock env in
      if webhookCache s \<noteq> None \<and> now0 < cacheExpiry s then (Inr (the (webhookCache s)), s)
      else
        (let s1 = s\<lparr>store_reads := store_reads s + 1\<rparr> in
         case getWebhooks env of
           Inl e \<Rightarrow> (Inl e, s1)
         | Inr webhooks \<Rightarrow>
             (case parse_webhooks env webhooks s1 of
                (Inl e, s2) \<Rightarrow> (Inl e, s2)
              | (Inr cws, s2) \<Rightarrow>
                  (Inr cws, s2\<lparr>webhookCache := Some cws, cacheExpiry := now0 + CACHE_TTL_MS\<rparr>))))"

text \<open>The filter of lines 60 to 62.\<close>

definition applicable :: "WebhookEvent \<Rightarrow> CachedWebhook \<Rightarrow> bool" where
  "applicable event cw \<longleftrightarrow> ''*'' \<in> set (eventTypes cw) \<or> type event \<in> set (eventTypes cw)"

text \<open>What the \<^verbatim>\<open>catch\<close> handler of one request writes once that request has settled.\<close>

definition delivery_log :: "dispatch_env \<Rightarrow> WebhookEvent \<Rightarrow> nat \<times> CachedWebhook \<Rightarrow> log_entry list" where
  "delivery_log env event d =
     (case axios_post env (fst d) (url (webhook (snd d))) event of
        None \<Rightarrow> []
      | Some ex \<Rightarrow>
          [Debug (''Failed to dispatch \"'' @ type event @ ''\" event to webhook: '' @
                  url (webhook (snd d))),
           Debug (''  -> Error: '' @ (case message ex of Some m \<Rightarrow> m | None \<Rightarrow> as_string ex)),
           Debug (''  -> Status Text: '' @ show_opt (statusText ex))])"

text \<open>
  \<^verbatim>\<open>dispatch\<close>. \<open>Inl\<close> is a rejection of the promise it returns. The requests are all
  started while the \<^verbatim>\<open>map\<close> of line 67 runs; the lines their handlers write when they
  settle are appended afterwards, in the order of the requests.
\<close>

definition dispatch ::
  "dispatch_env \<Rightarrow> WebhookEvent \<Rightarrow> WebhookService \<Rightarrow> (js_error + unit) \<times> WebhookService" where
  "dispatch env event s =
     (case getWebhooksWithCache env s of
        (Inl e, s1) \<Rightarrow> (Inl e, s1)
      | (Inr cachedWebhooks, s1) \<Rightarrow>
          (let applicableWebhooks = filter (applicable event) cachedWebhooks in
           if length applicableWebhooks = 0 then (Inr (), s1)
           else
             (let s2 = s1\<lparr>debug_log := debug_log s1 @
                            map (\<lambda>cw. Debug (''Dispatching event to webhook: '' @ url (webhook cw)))
                              applicableWebhooks,
                          posts := posts s1 @
                            map (\<lambda>cw. (url (webhook cw), event)) applicableWebhooks\<rparr>
              in (Inr (),
                  s2\<lparr>debug_log := debug_log s2 @
                       concat (map (delivery_log env event) (enumerate 0 applicableWebhooks))\<rparr>))))"

section \<open>Filter lists outside the declared type\<close>

text \<open>
  The cast \<^verbatim>\<open>as string[]\<close> of line 50 is not checked when the program runs:
  \<^verbatim>\<open>JSON.parse\<close> returns whatever value the stored string denotes, and that
  value is cached as it is. This section repeats the service with the parsed value kept as
  a JSON value, so that a stored \<^verbatim>\<open>null\<close>, number, object or string has a
  counterpart. A number is kept as its literal.
\<close>

datatype json =
  JNull | JBool bool | JNumber string | JString string | JArray "json list"
  | JObject "(string \<times> json) list"

text \<open>
  The \<^verbatim>\<open>TypeError\<close> of a call of \<^verbatim>\<open>includes\<close> on a value that has no such
  method; the wording of the message is the engine's and is abbreviated here.
\<close>

definition type_error :: "string \<Rightarrow> js_error" where
  "type_error msg = \<lparr>message = Some msg, as_string = ''TypeError: '' @ msg, statusText = None\<rparr>"

text \<open>
  \<^verbatim>\<open>String.prototype.includes\<close>: the argument occurs as a substring.
\<close>

definition string_includes :: "string \<Rightarrow> string \<Rightarrow> bool" where
  "string_includes str t = list_ex (\<lambda>i. take (length t) (drop i str) = t) [0..<Suc (length str)]"

text \<open>
  \<^verbatim>\<open>eventTypes.includes(t)\<close> on a parsed value: membership in an array (an element
  equals the string \<open>t\<close> only if it is that string), the substring test on a string, a
  \<^verbatim>\<open>TypeError\<close> on \<^verbatim>\<open>null\<close>, a boolean, a number or an object.
\<close>

fun js_includes :: "json \<Rightarrow> string \<Rightarrow> js_error + bool" where
  "js_includes (JArray xs) t = Inr (JString t \<in> set xs)"
| "js_includes (JString str) t = Inr (string_includes str t)"
| "js_includes JNull t = Inl (type_error ''Cannot read properties of null (reading includes)'')"
| "js_includes v t = Inl (type_error ''eventTypes.includes is not a function'')"

text \<open>
  The cache entry, the service and its surroundings as in the section above, with the
  parsed value of type \<^typ>\<open>json\<close>.
\<close>

record CachedWebhook_json =
  webhook_json :: Webhook
  eventTypes_json :: json

record WebhookService_json =
  webhookCache_json :: "CachedWebhook_json list option"
  cacheExpiry_json :: int
  debug_log_json :: "log_entry list"
  store_reads_json :: nat
  parsed_json :: "string list"
  posts_json :: "(string \<times> WebhookEvent) list"

record dispatch_env_json =
  clock_json :: int
  getWebhooks_json :: "js_error + Webhook list"
  JSON_parse_json :: "string \<Rightarrow> js_error + json"
  axios_post_json :: "nat \<Rightarrow> string \<Rightarrow> WebhookEvent \<Rightarrow> js_error option"


text \<open>
  Lines 40 to 54 over JSON values.
\<close>

fun parse_webhooks_json ::
  "dispatch_env_json \<Rightarrow> Webhook list \<Rightarrow> WebhookService_json
     \<Rightarrow> (js_error + CachedWebhook_json list) \<times> WebhookService_json" where
  "parse_webhooks_json env [] s = (Inr [], s)"
| "parse_webhooks_json env (w # ws) s =
     (let s1 = s\<lparr>parsed_json := parsed_json s @ [events w]\<rparr> in
      case JSON_parse_json env (events w) of
        Inl e \<Rightarrow> (Inl e, s1)
      | Inr v \<Rightarrow>
          (case parse_webhooks_json env ws s1 of
             (Inl e, s2) \<Rightarrow> (Inl e, s2)
           | (Inr cws, s2) \<Rightarrow> (Inr (\<lparr>webhook_json = w, eventTypes_json = v\<rparr> # cws), s2)))"

definition getWebhooksWithCache_json ::
  "dispatch_env_json \<Rightarrow> WebhookService_json
     \<Rightarrow> (js_error + CachedWebhook_json list) \<times> WebhookService_json" where
  "getWebhooksWithCache_json env s =
     (let now0 = clock_json env in
      if webhookCache_json s \<noteq> None \<and> now0 < cacheExpiry_json s
      then (Inr (the (webhookCache_json s)), s)
      else
        (let s1 = s\<lparr>store_reads_json := store_reads_json s + 1\<rparr> in
         case getWebhooks_json env of
           Inl e \<Rightarrow> (Inl e, s1)
         | Inr webhooks \<Rightarrow>
             (case parse_webhooks_json env webhooks s1 of
                (Inl e, s2) \<Rightarrow> (Inl e, s2)
              | (Inr cws, s2) \<Rightarrow>
                  (Inr cws,
                   s2\<lparr>webhookCache_json := Some cws, cacheExpiry_json := now0 + CACHE_TTL_MS\<rparr>))))"

text \<open>
  The callback of the filter of lines 60 to 62, which may throw, and the filter itself,
  which stops at the first element whose callback throws.
\<close>

definition applicable_json :: "WebhookEvent \<Rightarrow> CachedWebhook_json \<Rightarrow> js_error + bool" where
  "applicable_json event cw =
     (case js_includes (eventTypes_json cw) ''*'' of
        Inl e \<Rightarrow> Inl e
      | Inr b \<Rightarrow> if b then Inr True else js_includes (eventTypes_json cw) (type event))"

fun filter_json ::
  "WebhookEvent \<Rightarrow> CachedWebhook_json list \<Rightarrow> js_error + CachedWebhook_json list" where
  "filter_json event [] = Inr []"
| "filter_json event (cw # cws) =
     (case applicable_json event cw of
        Inl e \<Rightarrow> Inl e
      | Inr b \<Rightarrow>
          (case filter_json event cws of
             Inl e \<Rightarrow> Inl e
           | Inr rest \<Rightarrow> Inr (if b then cw # rest else rest)))"

text \<open>
  Lines 56 to 80 over JSON values. A throw of the filter rejects the promise after the
  lookup has filled the cache.
\<close>

definition delivery_log_json ::
  "dispatch_env_json \<Rightarrow> WebhookEvent \<Rightarrow> nat \<times> CachedWebhook_json \<Rightarrow> log_entry list" where
  "delivery_log_json env event d =
     (case axios_post_json env (fst d) (url (webhook_json (snd d))) event of
        None \<Rightarrow> []
      | Some ex \<Rightarrow>
          [Debug (''Failed to dispatch \"'' @ type event @ ''\" event to webhook: '' @
                  url (webhook_json (snd d))),
           Debug (''  -> Error: '' @ (case message ex of Some m \<Rightarrow> m | None \<Rightarrow> as_string ex)),
           Debug (''  -> Status Text: '' @ show_opt (statusText ex))])"

definition dispatch_json ::
  "dispatch_env_json \<Rightarrow> WebhookEvent \<Rightarrow> WebhookService_json
     \<Rightarrow> (js_error + unit) \<times> WebhookService_json" where
  "dispatch_json env event s =
     (case getWebhooksWithCache_json env s of
        (Inl e, s1) \<Rightarrow> (Inl e, s1)
      | (Inr cachedWebhooks, s1) \<Rightarrow>
          (case filter_json event cachedWebhooks of
             Inl e \<Rightarrow> (Inl e, s1)
           | Inr applicableWebhooks \<Rightarrow>
               if length applicableWebhooks = 0 then (Inr (), s1)
               else
                 (let s2 = s1\<lparr>debug_log_json := debug_log_json s1 @
                                map (\<lambda>cw. Debug (''Dispatching event to webhook: '' @
                                                  url (webhook_json cw)))
                                  applicableWebhooks,
                              posts_json := posts_json s1 @
                                map (\<lambda>cw. (url (webhook_json cw), event)) applicableWebhooks\<rparr>
                  in (Inr (),
                      s2\<lparr>debug_log_json := debug_log_json s2 @
                           concat (map (delivery_log_json env event)
                                     (enumerate 0 applicableWebhooks))\<rparr>))))"



text \<open>
  The service of the declared types inside the service over JSON values: a list of strings
  is the array of those strings.
\<close>

definition json_of_types :: "string list \<Rightarrow> json" where
  "json_of_types ts = JArray (map JString ts)"

definition json_of_cached :: "CachedWebhook \<Rightarrow> CachedWebhook_json" where
  "json_of_cached cw = \<lparr>webhook_json = webhook cw, eventTypes_json = json_of_types (eventTypes cw)\<rparr>"

definition json_of_service :: "WebhookService \<Rightarrow> WebhookService_json" where
  "json_of_service s =
     \<lparr>webhookCache_json = map_option (map json_of_cached) (webhookCache s),
      cacheExpiry_json = cacheExpiry s, debug_log_json = debug_log s,
      store_reads_json = store_reads s, parsed_json = parsed s, posts_json = posts s\<rparr>"

definition json_of_env :: "dispatch_env \<Rightarrow> dispatch_env_json" where
  "json_of_env env =
     \<lparr>clock_json = clock env, getWebhooks_json = getWebhooks env,
      JSON_parse_json = (\<lambda>str. case JSON_parse env str of Inl e \<Rightarrow> Inl e
                                  | Inr ts \<Rightarrow> Inr (json_of_types ts)),
      axios_post_json = axios_post env\<rparr>"

section \<open>The debounced trigger\<close>

text \<open>
  Modelled from the spec: the decorator \<^verbatim>\<open>DebounceSubsequentWithWait\<close> of
  \<^verbatim>\<open>@server/lib/decorators/DebounceDecorator\<close> is not among the source files. The
  specification (sections 4.2 and 9) describes a timer table with one pending deadline per
  key: the state is that table and the times at which the wrapped handler has been run.
\<close>

record debouncer =
  timers :: "string \<Rightarrow> int option"
  fired :: "int list"

text \<open>
  Modelled from the spec: when the clock reaches \<open>t\<close>, a pending timer of the key whose
  deadline has passed runs the handler and leaves the table.
\<close>

definition expire :: "string \<Rightarrow> int \<Rightarrow> debouncer \<Rightarrow> debouncer" where
  "expire key t st =
     (case timers st key of
        None \<Rightarrow> st
      | Some d \<Rightarrow>
          if d \<le> t then st\<lparr>timers := (timers st)(key := None), fired := fired st @ [d]\<rparr>
          else st)"

text \<open>
  Modelled from the spec: \<^verbatim>\<open>scheduleOrReset(key, wait, action)\<close>; a call for a pending
  key replaces its timer instead of adding a second one.
\<close>

definition scheduleOrReset :: "string \<Rightarrow> int \<Rightarrow> int \<Rightarrow> debouncer \<Rightarrow> debouncer" where
  "scheduleOrReset key wait t st = st\<lparr>timers := (timers st)(key \<mapsto> t + wait)\<rparr>"

text \<open>Modelled from the spec: a raw change notification arriving at time \<open>t\<close>.\<close>

definition notify :: "string \<Rightarrow> int \<Rightarrow> debouncer \<Rightarrow> int \<Rightarrow> debouncer" where
  "notify key wait st t = scheduleOrReset key wait t (expire key t st)"

text \<open>
  Modelled from the spec: the times at which the handler runs for notifications arriving
  at the times \<open>ts\<close>, the last pending timer running at its deadline.
\<close>

definition debounce_fires :: "string \<Rightarrow> int \<Rightarrow> int list \<Rightarrow> int list" where
  "debounce_fires key wait ts =
     (let st = foldl (notify key wait) \<lparr>timers = (\<lambda>k. None), fired = []\<rparr> ts in
      case timers st key of None \<Rightarrow> fired st | Some d \<Rightarrow> fired st @ [d])"

text \<open>A burst: arrival times in order, each gap shorter than the wait.\<close>

fun burst :: "int \<Rightarrow> int list \<Rightarrow> bool" where
  "burst wait (a # b # ts) = (a \<le> b \<and> b - a < wait \<and> burst wait (b # ts))"
| "burst wait ts = True"

section \<open>Example values\<close>

definition boom :: js_error where
  "boom = \<lparr>message = Some ''boom'', as_string = ''Error: boom'', statusText = None\<rparr>"

definition ok_poller :: IMessagePoller where
  "ok_poller after = Inr [\<lparr>eventType = ''new-message'', data = ''m1''\<rparr>]"

definition bad_poller :: IMessagePoller where
  "bad_poller after = Inl boom"

definition quiet_env :: "int \<Rightarrow> cycle_env" where
  "quiet_env t = \<lparr>now = t, emit = (\<lambda>r. None), trimCaches = None, nrWaiting = 0\<rparr>"

definition ex_listener :: "IMessagePoller list \<Rightarrow> int \<Rightarrow> listener" where
  "ex_listener ps t = new_listener\<lparr>pollers := ps, lastCheck := t\<rparr>"

definition syntax_error :: js_error where
  "syntax_error =
     \<lparr>message = Some ''Unexpected token'', as_string = ''SyntaxError: Unexpected token'',
      statusText = None\<rparr>"

definition ex_parse :: "string \<Rightarrow> js_error + string list" where
  "ex_parse str =
     (if str = ''[\"*\"]'' then Inr [''*'']
      else if str = ''[\"msg-new\"]'' then Inr [''msg-new'']
      else if str = ''[\"msg-deleted\"]'' then Inr [''msg-deleted'']
      else Inl syntax_error)"

definition ex_webhooks :: "Webhook list" where
  "ex_webhooks =
     [\<lparr>url = ''http://a'', events = ''[\"*\"]''\<rparr>,
      \<lparr>url = ''http://b'', events = ''[\"msg-new\"]''\<rparr>,
      \<lparr>url = ''http://c'', events = ''[\"msg-deleted\"]''\<rparr>]"

definition ex_event :: WebhookEvent where
  "ex_event = \<lparr>type = ''msg-new'', data = ''{id:1}''\<rparr>"

definition ex_env :: "int \<Rightarrow> (js_error + Webhook list) \<Rightarrow> dispatch_env" where
  "ex_env t store =
     \<lparr>clock = t, getWebhooks = store, JSON_parse = ex_parse, axios_post = (\<lambda>i u e. None)\<rparr>"

definition refused :: js_error where
  "refused =
     \<lparr>message = Some ''connect ECONNREFUSED'', as_string = ''Error: connect ECONNREFUSED'',
      statusText = None\<rparr>"

definition ex_matching :: "Webhook list" where
  "ex_matching =
     [\<lparr>url = ''http://a'', events = ''[\"*\"]''\<rparr>,
      \<lparr>url = ''http://b'', events = ''[\"msg-new\"]''\<rparr>,
      \<lparr>url = ''http://c'', events = ''[\"*\"]''\<rparr>]"

definition ex_cached :: "CachedWebhook list" where
  "ex_cached =
     [\<lparr>webhook = \<lparr>url = ''http://a'', events = ''[\"*\"]''\<rparr>, eventTypes = [''*'']\<rparr>,
      \<lparr>webhook = \<lparr>url = ''http://b'', events = ''[\"msg-new\"]''\<rparr>, eventTypes = [''msg-new'']\<rparr>,
      \<lparr>webhook = \<lparr>url = ''http://c'', events = ''[\"*\"]''\<rparr>, eventTypes = [''*'']\<rparr>]"

definition second_fails :: "nat \<Rightarrow> string \<Rightarrow> WebhookEvent \<Rightarrow> js_error option" where
  "second_fails i u e = (if i = 1 then Some refused else None)"








section \<open>Properties of the poll loop\<close>

lemma emit_results_keeps:
  "emit_results env rs s = (r, s') \<Longrightarrow>
     lastCheck s' = lastCheck s \<and> trims s' = trims s \<and> processLock s' = processLock s \<and>
     pollers s' = pollers s \<and> polled s' = polled s \<and> log s' = log s \<and> stopped s' = stopped s"
proof (induction rs arbitrary: s)
  case Nil
  then show ?case by simp
next
  case (Cons x rs)
  show ?case
  proof (cases "emit env x")
    case None
    with Cons.prems
    have "emit_results env rs (s\<lparr>emitted := emitted s @ [x], slept := slept s + 10\<rparr>) = (r, s')"
      by (simp add: Let_def)
    from Cons.IH [OF this] show ?thesis by simp
  next
    case (Some e)
    with Cons.prems have "s' = s\<lparr>emitted := emitted s @ [x]\<rparr>" by (simp add: Let_def)
    then show ?thesis by simp
  qed
qed

lemma poll_loop_keeps:
  "poll_loop env a b ps s = (r, s') \<Longrightarrow>
     lastCheck s' = lastCheck s \<and> trims s' = trims s \<and> processLock s' = processLock s \<and>
     pollers s' = pollers s \<and> log s' = log s \<and> stopped s' = stopped s"
proof (induction ps arbitrary: s)
  case Nil
  then show ?case by simp
next
  case (Cons p ps)
  obtain i q where p: "p = (i, q)" by (cases p)
  show ?case
  proof (cases "q a")
    case (Inl e)
    with Cons.prems p show ?thesis by (auto simp: Let_def)
  next
    case (Inr rs)
    show ?thesis
    proof (cases b)
      case False
      with Cons.prems p Inr
      have "poll_loop env a b ps (s\<lparr>polled := polled s @ [(i, a)]\<rparr>) = (r, s')" by (simp add: Let_def)
      from Cons.IH [OF this] show ?thesis by simp
    next
      case True
      obtain r1 s1 where e: "emit_results env rs (s\<lparr>polled := polled s @ [(i, a)]\<rparr>) = (r1, s1)"
        by (cases "emit_results env rs (s\<lparr>polled := polled s @ [(i, a)]\<rparr>)")
      note k = emit_results_keeps [OF e]
      show ?thesis
      proof (cases r1)
        case (Inl e1)
        with Cons.prems p \<open>q a = Inr rs\<close> True e have "s' = s1" by (simp add: Let_def)
        with k show ?thesis by simp
      next
        case (Inr u)
        with Cons.prems p \<open>q a = Inr rs\<close> True e
        have "poll_loop env a b ps s1 = (r, s')" by (simp add: Let_def)
        from Cons.IH [OF this] k show ?thesis by simp
      qed
    qed
  qed
qed

lemma poll_loop_polled:
  "\<exists>k. k \<le> length ps \<and> (ps \<noteq> [] \<longrightarrow> 0 < k) \<and>
       polled (snd (poll_loop env a b ps s)) = polled s @ map (\<lambda>p. (fst p, a)) (take k ps)"
proof (induction ps arbitrary: s)
  case Nil
  then show ?case by simp
next
  case (Cons p ps)
  obtain i q where p: "p = (i, q)" by (cases p)
  let ?s1 = "s\<lparr>polled := polled s @ [(i, a)]\<rparr>"
  have stop: "polled s' = polled ?s1 \<Longrightarrow> poll_loop env a b (p # ps) s = (r, s') \<Longrightarrow> ?case" for r s'
    by (intro exI [of _ 1]) (simp add: p)
  have go: "poll_loop env a b (p # ps) s = poll_loop env a b ps s2 \<Longrightarrow> polled s2 = polled ?s1 \<Longrightarrow> ?case" for s2
  proof -
    assume a1: "poll_loop env a b (p # ps) s = poll_loop env a b ps s2" and a2: "polled s2 = polled ?s1"
    from Cons.IH [of s2] obtain k where k: "k \<le> length ps"
      "polled (snd (poll_loop env a b ps s2)) = polled s2 @ map (\<lambda>p. (fst p, a)) (take k ps)"
      by blast
    show ?case
      unfolding a1 by (intro exI [of _ "Suc k"]) (simp add: a2 k p)
  qed
  show ?case
  proof (cases "q a")
    case (Inl e)
    then show ?thesis by (intro stop [of ?s1 "Inl e"]) (simp_all add: p Let_def)
  next
    case (Inr rs)
    show ?thesis
    proof (cases b)
      case False
      with Inr show ?thesis by (intro go [of ?s1]) (simp_all add: p Let_def)
    next
      case True
      obtain r1 s1 where e: "emit_results env rs ?s1 = (r1, s1)"
        by (cases "emit_results env rs ?s1")
      note kp = emit_results_keeps [OF e]
      show ?thesis
      proof (cases r1)
        case (Inl e1)
        with Inr True e kp show ?thesis by (intro stop [of s1 "Inl e1"]) (simp_all add: p Let_def)
      next
        case (Inr u)
        with \<open>q a = Inr rs\<close> True e kp show ?thesis by (intro go [of s1]) (simp_all add: p Let_def)
      qed
    qed
  qed
qed

lemma poll_keeps:
  "poll env a b s = (r, s') \<Longrightarrow>
     lastCheck s' = lastCheck s \<and> trims s' = trims s \<and> processLock s' = processLock s \<and>
     pollers s' = pollers s \<and> log s' = log s \<and> stopped s' = stopped s"
  unfolding poll_def by (rule poll_loop_keeps)

lemma poll_polled:
  "\<exists>k. k \<le> length (pollers s) \<and> (pollers s \<noteq> [] \<longrightarrow> 0 < k) \<and>
       polled (snd (poll env a b s)) = polled s @ map (\<lambda>i. (i, a)) [0..<k]"
proof -
  have ne: "enumerate 0 (pollers s) \<noteq> [] \<longleftrightarrow> pollers s \<noteq> []"
    by (cases "pollers s") simp_all
  from poll_loop_polled [of "enumerate 0 (pollers s)" env a b s]
  obtain k where k0: "k \<le> length (enumerate 0 (pollers s))"
    "enumerate 0 (pollers s) \<noteq> [] \<longrightarrow> 0 < k"
    "polled (snd (poll_loop env a b (enumerate 0 (pollers s)) s)) =
       polled s @ map (\<lambda>p. (fst p, a)) (take k (enumerate 0 (pollers s)))"
    by blast
  from k0 ne have k: "k \<le> length (pollers s)" "pollers s \<noteq> [] \<longrightarrow> 0 < k"
    "polled (snd (poll env a b s)) =
       polled s @ map (\<lambda>p. (fst p, a)) (take k (enumerate 0 (pollers s)))"
    by (simp_all add: poll_def)
  have "map fst (take k (enumerate 0 (pollers s))) = take k [0..<length (pollers s)]"
    by (simp add: take_map [symmetric])
  also have "\<dots> = [0..<k]"
    using k(1) by (simp add: take_upt)
  finally have f: "map fst (take k (enumerate 0 (pollers s))) = [0..<k]" .
  have "map (\<lambda>p. (fst p, a)) (take k (enumerate 0 (pollers s))) =
        map (\<lambda>i. (i, a)) (map fst (take k (enumerate 0 (pollers s))))"
    by (simp add: comp_def)
  also have "\<dots> = map (\<lambda>i. (i, a)) [0..<k]"
    by (simp only: f)
  finally show ?thesis using k by auto
qed

lemma run_cycle_summary:
  assumes "0 < processLock s"
  shows "\<exists>s' r s2 pre.
     run_cycle (trig, env) s = Some s' \<and>
     poll env (cycle_afterTime trig (lastCheck s) (now env)) True
       (s\<lparr>processLock := processLock s - 1, log := log s @ pre\<rparr>) = (r, s2) \<and>
     processLock s' = processLock s \<and> polled s' = polled s2 \<and> pollers s' = pollers s \<and>
     stopped s' = stopped s \<and>
     (case r of
        Inl e \<Rightarrow> lastCheck s' = lastCheck s \<and> trims s' = trims s \<and>
                 log s' = log s @ pre @ [Error (cycle_error_text trig @ as_string e)]
      | Inr u \<Rightarrow> lastCheck s' = now env \<and> trims s' = Suc (trims s))"
proof (cases trig)
  case Debounced
  let ?pre = "snd (changePrevTime (lastCheck s) (now env))"
  let ?s1 = "s\<lparr>processLock := processLock s - 1, log := log s @ ?pre\<rparr>"
  obtain r s2 where p: "poll env (changeAfterTime (lastCheck s) (now env)) True ?s1 = (r, s2)"
    by (cases "poll env (changeAfterTime (lastCheck s) (now env)) True ?s1")
  note k = poll_keeps [OF p]
  show ?thesis
  proof (cases r)
    case (Inl e)
    with assms p k Debounced show ?thesis
      by (intro exI [of _ "release (s2\<lparr>log := log s2 @ [Error (''Error handling change event: '' @ as_string e)]\<rparr>)"]
                exI [of _ r] exI [of _ s2] exI [of _ ?pre])
         (simp add: run_cycle_def handleChangeEvent_def acquire_def release_def Let_def
                    cycle_afterTime_def cycle_error_text_def)
  next
    case (Inr u)
    with assms p k Debounced show ?thesis
      by (intro exI [of _ "the (handleChangeEvent env s)"]
                exI [of _ r] exI [of _ s2] exI [of _ ?pre])
         (simp add: run_cycle_def handleChangeEvent_def acquire_def release_def Let_def
                    cycle_afterTime_def cycle_error_text_def split: option.splits)
  qed
next
  case Fallback
  let ?s1 = "s\<lparr>processLock := processLock s - 1, log := log s @ []\<rparr>"
  obtain r s2 where p: "poll env (fallbackAfterTime (lastCheck s) (now env)) True ?s1 = (r, s2)"
    by (cases "poll env (fallbackAfterTime (lastCheck s) (now env)) True ?s1")
  note k = poll_keeps [OF p]
  show ?thesis
  proof (cases r)
    case (Inl e)
    with assms p k Fallback show ?thesis
      by (intro exI [of _ "the (handleFallbackPoll env s)"]
                exI [of _ r] exI [of _ s2] exI [of _ "[]"])
         (simp add: run_cycle_def handleFallbackPoll_def acquire_def release_def Let_def
                    cycle_afterTime_def cycle_error_text_def)
  next
    case (Inr u)
    with assms p k Fallback show ?thesis
      by (intro exI [of _ "the (handleFallbackPoll env s)"]
                exI [of _ r] exI [of _ s2] exI [of _ "[]"])
         (simp add: run_cycle_def handleFallbackPoll_def acquire_def release_def Let_def
                    cycle_afterTime_def cycle_error_text_def split: option.splits)
  qed
qed

lemma dates_passed_append: "polled s' = polled s @ map (\<lambda>i. (i, a)) [0..<k] \<Longrightarrow> dates_passed s s' = replicate k a"
  by (simp add: dates_passed_def comp_def map_replicate_const)

lemma run_cycle_dates:
  assumes "0 < processLock s"
  shows "\<exists>s' k. run_cycle (trig, env) s = Some s' \<and> k \<le> length (pollers s) \<and>
           (pollers s \<noteq> [] \<longrightarrow> 0 < k) \<and>
           dates_passed s s' = replicate k (cycle_afterTime trig (lastCheck s) (now env))"
proof -
  from run_cycle_summary [OF assms, of trig env]
  obtain s' r s2 pre where c: "run_cycle (trig, env) s = Some s'"
    "poll env (cycle_afterTime trig (lastCheck s) (now env)) True
       (s\<lparr>processLock := processLock s - 1, log := log s @ pre\<rparr>) = (r, s2)"
    "polled s' = polled s2"
    by blast
  let ?s1 = "s\<lparr>processLock := processLock s - 1, log := log s @ pre\<rparr>"
  from poll_polled [of ?s1 env "cycle_afterTime trig (lastCheck s) (now env)" True]
  obtain k where k: "k \<le> length (pollers s)" "pollers s \<noteq> [] \<longrightarrow> 0 < k"
    "polled s2 = polled s @ map (\<lambda>i. (i, cycle_afterTime trig (lastCheck s) (now env))) [0..<k]"
    using c(2) by auto
  from k(3) c(3) have "dates_passed s s' = replicate k (cycle_afterTime trig (lastCheck s) (now env))"
    by (simp add: dates_passed_append)
  with c(1) k(1,2) show ?thesis by blast
qed

lemma changeAfterTime_spec: "changeAfterTime lc n = spec_debounced_lower_bound lc n"
  by (simp add: changeAfterTime_def changePrevTime_def spec_debounced_lower_bound_def Let_def min_def)

lemma emit_results_ok:
  "list_all (\<lambda>r. emit env r = None) rs \<Longrightarrow> \<exists>s'. emit_results env rs s = (Inr (), s')"
  by (induction rs arbitrary: s) (simp_all add: Let_def)

lemma poll_loop_abort:
  assumes "list_all (\<lambda>p. poller_ok env a (snd p)) ps1" and "q a = Inl e"
  shows "\<exists>s'. poll_loop env a True (ps1 @ (i, q) # ps2) s = (Inl e, s') \<and>
              polled s' = polled s @ map (\<lambda>p. (fst p, a)) (ps1 @ [(i, q)])"
  using assms(1)
proof (induction ps1 arbitrary: s)
  case Nil
  with assms(2) show ?case by (simp add: Let_def)
next
  case (Cons p ps1)
  obtain j r where p: "p = (j, r)" by (cases p)
  let ?s1 = "s\<lparr>polled := polled s @ [(j, a)]\<rparr>"
  from Cons.prems p obtain rs where rs: "r a = Inr rs" "list_all (\<lambda>x. emit env x = None) rs"
    by (auto simp: poller_ok_def split: sum.splits)
  from emit_results_ok [OF rs(2), of ?s1] obtain s2 where s2: "emit_results env rs ?s1 = (Inr (), s2)"
    by blast
  from emit_results_keeps [OF s2] have k: "polled s2 = polled s @ [(j, a)]" by simp
  from Cons.prems have "list_all (\<lambda>p. poller_ok env a (snd p)) ps1" by simp
  from Cons.IH [OF this, of s2] obtain s' where
    s': "poll_loop env a True (ps1 @ (i, q) # ps2) s2 = (Inl e, s')"
        "polled s' = polled s2 @ map (\<lambda>p. (fst p, a)) (ps1 @ [(i, q)])"
    by blast
  have "poll_loop env a True ((p # ps1) @ (i, q) # ps2) s = (Inl e, s')"
    using p rs(1) s2 s'(1) by (simp add: Let_def)
  moreover have "polled s' = polled s @ map (\<lambda>p. (fst p, a)) ((p # ps1) @ [(i, q)])"
    using s'(2) k p by simp
  ultimately show ?case by blast
qed

lemma map_fst_enumerate_pair:
  "map (\<lambda>p. (fst p, a)) (enumerate n xs) = map (\<lambda>i. (i, a)) [n..<n + length xs]"
proof -
  have g: "map (\<lambda>p. (fst p, a)) ys = map (\<lambda>i. (i, a)) (map fst ys)" for ys :: "(nat \<times> 'b) list"
    by (induction ys) simp_all
  show ?thesis
    unfolding g [of "enumerate n xs"] by (simp only: map_fst_enumerate)
qed

lemma poll_abort:
  assumes "pollers s = ps1 @ q # ps2" and "list_all (poller_ok env a) ps1" and "q a = Inl e"
  shows "\<exists>s'. poll env a True s = (Inl e, s') \<and>
              polled s' = polled s @ map (\<lambda>i. (i, a)) [0..<Suc (length ps1)]"
proof -
  have en: "enumerate 0 (pollers s) =
              enumerate 0 ps1 @ (length ps1, q) # enumerate (Suc (length ps1)) ps2"
    by (simp add: assms(1) enumerate_append_eq)
  have ok: "list_all (\<lambda>p. poller_ok env a (snd p)) (enumerate 0 ps1)"
    using assms(2) by (auto simp: list_all_iff in_set_enumerate_eq)
  from poll_loop_abort [of env a "enumerate 0 ps1" q e "length ps1" "enumerate (Suc (length ps1)) ps2" s,
      OF ok assms(3)]
  obtain s' where s': "poll env a True s = (Inl e, s')"
    "polled s' = polled s @ map (\<lambda>p. (fst p, a)) (enumerate 0 ps1 @ [(length ps1, q)])"
    by (auto simp: poll_def en)
  have "map (\<lambda>p. (fst p, a)) (enumerate 0 ps1 @ [(length ps1, q)]) =
        map (\<lambda>i. (i, a)) [0..<Suc (length ps1)]"
    by (simp add: map_fst_enumerate_pair)
  with s' show ?thesis by auto
qed

lemma run_cycles_lock:
  "0 < processLock s \<Longrightarrow> \<exists>s'. run_cycles cs s = Some s' \<and> processLock s' = processLock s"
proof (induction cs arbitrary: s)
  case Nil
  then show ?case by simp
next
  case (Cons c cs)
  obtain trig env where c: "c = (trig, env)" by (cases c)
  from run_cycle_summary [OF Cons.prems, of trig env]
  obtain s1 where s1: "run_cycle c s = Some s1" "processLock s1 = processLock s"
    using c by blast
  from Cons.IH [of s1] s1(2) Cons.prems
  obtain s' where "run_cycles cs s1 = Some s'" "processLock s' = processLock s1" by auto
  with s1 show ?case by simp
qed

lemma poll_loop_complete:
  assumes "list_all (\<lambda>p. poller_ok env a (snd p)) ps"
  shows "\<exists>s'. poll_loop env a True ps s = (Inr (), s') \<and>
              polled s' = polled s @ map (\<lambda>p. (fst p, a)) ps"
  using assms
proof (induction ps arbitrary: s)
  case Nil
  then show ?case by simp
next
  case (Cons p ps)
  obtain j r where p: "p = (j, r)" by (cases p)
  let ?s1 = "s\<lparr>polled := polled s @ [(j, a)]\<rparr>"
  from Cons.prems p obtain rs where rs: "r a = Inr rs" "list_all (\<lambda>x. emit env x = None) rs"
    by (auto simp: poller_ok_def split: sum.splits)
  from emit_results_ok [OF rs(2), of ?s1] obtain s2 where s2: "emit_results env rs ?s1 = (Inr (), s2)"
    by blast
  from emit_results_keeps [OF s2] have k: "polled s2 = polled s @ [(j, a)]" by simp
  from Cons.prems have "list_all (\<lambda>p. poller_ok env a (snd p)) ps" by simp
  from Cons.IH [OF this, of s2] obtain s' where
    s': "poll_loop env a True ps s2 = (Inr (), s')"
        "polled s' = polled s2 @ map (\<lambda>p. (fst p, a)) ps"
    by blast
  have "poll_loop env a True (p # ps) s = (Inr (), s')"
    using p rs(1) s2 s'(1) by (simp add: Let_def)
  moreover have "polled s' = polled s @ map (\<lambda>p. (fst p, a)) (p # ps)"
    using s'(2) k p by simp
  ultimately show ?case by blast
qed

lemma poll_complete:
  assumes "list_all (poller_ok env a) (pollers s)"
  shows "\<exists>s'. poll env a True s = (Inr (), s') \<and>
              polled s' = polled s @ map (\<lambda>i. (i, a)) [0..<length (pollers s)]"
proof -
  have ok: "list_all (\<lambda>p. poller_ok env a (snd p)) (enumerate 0 (pollers s))"
    using assms by (auto simp: list_all_iff in_set_enumerate_eq)
  from poll_loop_complete [of env a "enumerate 0 (pollers s)" s, OF ok]
  obtain s' where s': "poll env a True s = (Inr (), s')"
    "polled s' = polled s @ map (\<lambda>p. (fst p, a)) (enumerate 0 (pollers s))"
    by (auto simp: poll_def)
  have "map (\<lambda>p. (fst p, a)) (enumerate 0 (pollers s)) =
        map (\<lambda>i. (i, a)) [0..<length (pollers s)]"
    by (simp add: map_fst_enumerate_pair)
  with s' show ?thesis by auto
qed

lemma run_cycle_polled:
  assumes "0 < processLock s" and "w = cycle_afterTime trig (lastCheck s) (now env)"
  shows "\<exists>s' k. run_cycle (trig, env) s = Some s' \<and> k \<le> length (pollers s) \<and>
           (pollers s \<noteq> [] \<longrightarrow> 0 < k) \<and>
           polled s' = polled s @ map (\<lambda>i. (i, w)) [0..<k] \<and>
           processLock s' = processLock s \<and>
           (list_all (poller_ok env w) (pollers s) \<longrightarrow>
              k = length (pollers s) \<and> lastCheck s' = now env \<and> trims s' = Suc (trims s))"
proof -
  from run_cycle_summary [OF assms(1), of trig env]
  obtain s' r s2 pre where c: "run_cycle (trig, env) s = Some s'"
    "poll env w True (s\<lparr>processLock := processLock s - 1, log := log s @ pre\<rparr>) = (r, s2)"
    "processLock s' = processLock s" "polled s' = polled s2"
    "case r of
        Inl e \<Rightarrow> lastCheck s' = lastCheck s \<and> trims s' = trims s \<and>
                 log s' = log s @ pre @ [Error (cycle_error_text trig @ as_string e)]
      | Inr u \<Rightarrow> lastCheck s' = now env \<and> trims s' = Suc (trims s)"
    unfolding assms(2) by blast
  let ?s1 = "s\<lparr>processLock := processLock s - 1, log := log s @ pre\<rparr>"
  from poll_polled [of ?s1 env w True] c(2)
  obtain k where k: "k \<le> length (pollers s)" "pollers s \<noteq> [] \<longrightarrow> 0 < k"
    "polled s2 = polled s @ map (\<lambda>i. (i, w)) [0..<k]"
    by auto
  have "k = length (pollers s) \<and> lastCheck s' = now env \<and> trims s' = Suc (trims s)"
    if ok: "list_all (poller_ok env w) (pollers s)"
  proof -
    from ok have "list_all (poller_ok env w) (pollers ?s1)" by simp
    from poll_complete [OF this] c(2)
    have r: "r = Inr ()" and
      p: "polled s2 = polled s @ map (\<lambda>i. (i, w)) [0..<length (pollers s)]"
      by auto
    from p k(3) have "length (map (\<lambda>i. (i, w)) [0..<k]) =
                      length (map (\<lambda>i. (i, w)) [0..<length (pollers s)])"
      by simp
    then have "k = length (pollers s)" by simp
    with c(5) r show ?thesis by simp
  qed
  with c(1,3,4) k show ?thesis by auto
qed

lemmas listener_eval =
  run_cycle_def handleFallbackPoll_def handleChangeEvent_def acquire_def release_def poll_def
  ex_listener_def new_listener_def quiet_env_def ok_poller_def bad_poller_def boom_def
  fallbackAfterTime_def changeAfterTime_def changePrevTime_def dates_passed_def
  cycle_afterTime_def cycle_error_text_def poller_ok_def Let_def enumerate_eq_zip upt_rec

section \<open>The window of a cycle\<close>

text \<open>
  Claim C4. In a debounced cycle every Poller invoked receives the same date, and that date
  is the one the specification's rule gives: take the previous check time, replace it by
  the current time when it is not positive or lies in the future, else by the current
  time minus 24 hours when it is older than that, subtract 30 seconds and never exceed the
  current time. With a previous check time of 0 the date is the current time \<open>T\<close> minus
  30000; with a previous check time of \<open>T - 100000000\<close> that is itself positive, it is
  \<open>T - 86400000 - 30000\<close>.
\<close>

theorem debounced_lower_bound_rule:
  assumes "0 < processLock s"
  shows "(\<exists>s' k. handleChangeEvent env s = Some s' \<and> k \<le> length (pollers s) \<and>
            (pollers s \<noteq> [] \<longrightarrow> 0 < k) \<and>
            dates_passed s s' = replicate k (changeAfterTime (lastCheck s) (now env))) \<and>
         changeAfterTime lc n = spec_debounced_lower_bound lc n \<and>
         changeAfterTime 0 T = T - 30000 \<and>
         (100000000 < T \<longrightarrow> changeAfterTime (T - 100000000) T = T - 86400000 - 30000)"
proof -
  from run_cycle_dates [OF assms, of Debounced env]
  have "\<exists>s' k. handleChangeEvent env s = Some s' \<and> k \<le> length (pollers s) \<and>
            (pollers s \<noteq> [] \<longrightarrow> 0 < k) \<and>
            dates_passed s s' = replicate k (changeAfterTime (lastCheck s) (now env))"
    by (simp add: run_cycle_def cycle_afterTime_def)
  moreover have "changeAfterTime 0 T = T - 30000"
    by (simp add: changeAfterTime_def changePrevTime_def Let_def)
  moreover have "100000000 < T \<longrightarrow> changeAfterTime (T - 100000000) T = T - 86400000 - 30000"
    by (simp add: changeAfterTime_def changePrevTime_def Let_def)
  ultimately show ?thesis using changeAfterTime_spec by blast
qed

text \<open>
  The rule at the clock reading 1700000000000 with two Pollers and a previous check
  100000000 ms earlier.
\<close>

theorem debounced_lower_bound_rule_witness:
  "0 < processLock (ex_listener [ok_poller, ok_poller] 1699900000000) \<and>
   (100000000::int) < 1700000000000 \<and>
   map_option (dates_passed (ex_listener [ok_poller, ok_poller] 1699900000000))
     (handleChangeEvent (quiet_env 1700000000000) (ex_listener [ok_poller, ok_poller] 1699900000000))
     = Some [1699913570000, 1699913570000] \<and>
   changeAfterTime 1699900000000 1700000000000 = spec_debounced_lower_bound 1699900000000 1700000000000 \<and>
   changeAfterTime 0 1700000000000 = 1699999970000 \<and>
   changeAfterTime (1700000000000 - 100000000) 1700000000000 = 1700000000000 - 86400000 - 30000"
  using debounced_lower_bound_rule [of "ex_listener [ok_poller, ok_poller] 1699900000000"
      "quiet_env 1700000000000" 1699900000000 1700000000000 1700000000000]
  by (simp add: listener_eval)

text \<open>
  Claim C1 as stated fails: a fallback cycle entered with a previous check time 5000 ms
  ahead of the clock reading 1700000000000 passes the date 25000 ms before the clock
  reading to the Poller, not the date 60000 ms before it.
\<close>

theorem fallback_skewed_lastCheck_counterexample:
  "fallbackAfterTime (1700000000000 + 5000) 1700000000000 = 1700000000000 - 25000 \<and>
   fallbackAfterTime (1700000000000 + 5000) 1700000000000 \<noteq> 1700000000000 - 60000 \<and>
   map_option (dates_passed (ex_listener [ok_poller] (1700000000000 + 5000)))
     (handleFallbackPoll (quiet_env 1700000000000) (ex_listener [ok_poller] (1700000000000 + 5000)))
     = Some [1700000000000 - 25000]"
  by (simp add: listener_eval)

text \<open>
  Claim C1, amended. In a fallback cycle every Poller invoked receives the previous check
  time minus 30000, unless that value exceeds the clock reading or is not positive, in
  which case it receives the clock reading minus 60000. A previous check time 5000 ms
  ahead of a clock reading above 25000 is therefore answered with the clock reading minus
  25000; the reset needs a previous check time more than 30000 ms ahead.
\<close>

theorem fallback_skewed_lastCheck:
  assumes "0 < processLock s"
  shows "\<exists>s' k. handleFallbackPoll env s = Some s' \<and> k \<le> length (pollers s) \<and>
           (pollers s \<noteq> [] \<longrightarrow> 0 < k) \<and>
           dates_passed s s' =
             replicate k (if now env + 30000 < lastCheck s \<or> lastCheck s \<le> 30000
                          then now env - 60000 else lastCheck s - 30000) \<and>
           (lastCheck s = now env + 5000 \<and> 25000 < now env \<longrightarrow>
              dates_passed s s' = replicate k (now env - 25000))"
proof -
  from run_cycle_dates [OF assms, of Fallback env]
  obtain s' k where c: "handleFallbackPoll env s = Some s'" "k \<le> length (pollers s)"
    "pollers s \<noteq> [] \<longrightarrow> 0 < k"
    "dates_passed s s' = replicate k (fallbackAfterTime (lastCheck s) (now env))"
    by (auto simp: run_cycle_def cycle_afterTime_def)
  have w: "fallbackAfterTime (lastCheck s) (now env) =
          (if now env + 30000 < lastCheck s \<or> lastCheck s \<le> 30000
           then now env - 60000 else lastCheck s - 30000)"
    by (simp add: fallbackAfterTime_def Let_def)
  have "lastCheck s = now env + 5000 \<and> 25000 < now env \<longrightarrow>
          fallbackAfterTime (lastCheck s) (now env) = now env - 25000"
    by (simp add: fallbackAfterTime_def Let_def)
  with c w show ?thesis by (intro exI [of _ s'] exI [of _ k]) simp
qed

text \<open>The amended rule at the clock reading 1700000000000 with one Poller.\<close>

theorem fallback_skewed_lastCheck_witness:
  "0 < processLock (ex_listener [ok_poller] 1700000005000) \<and>
   lastCheck (ex_listener [ok_poller] 1700000005000) = now (quiet_env 1700000000000) + 5000 \<and>
   25000 < now (quiet_env 1700000000000) \<and>
   map_option (dates_passed (ex_listener [ok_poller] 1700000005000))
     (handleFallbackPoll (quiet_env 1700000000000) (ex_listener [ok_poller] 1700000005000))
     = Some [1699999975000]"
  using fallback_skewed_lastCheck [of "ex_listener [ok_poller] 1700000005000" "quiet_env 1700000000000"]
  by (simp add: listener_eval)

text \<open>
  The bounds that do hold: the debounced window lies between 24 hours and 30 seconds
  before the clock reading and 30 seconds before it, and the fallback window never lies
  after the clock reading.
\<close>

lemma changeAfterTime_bounds:
  "n - 86400000 - 30000 \<le> changeAfterTime lc n \<and> changeAfterTime lc n \<le> n - 30000"
  by (simp add: changeAfterTime_def changePrevTime_def Let_def)

lemma fallbackAfterTime_upper: "fallbackAfterTime lc n \<le> n"
  by (simp add: fallbackAfterTime_def Let_def)

text \<open>
  Claim C2 says that the date passed to the Pollers is never earlier than the clock
  reading minus 24 hours and 30 seconds, on either path. The fallback path has no such
  clamp: with a previous check time 100000000 ms before the clock reading 1700000000000 it
  passes the date 100030000 ms before the clock reading, where the debounced path from the
  same state passes the clamped date.
\<close>

theorem fallback_window_older_than_24h:
  "map_option (dates_passed (ex_listener [ok_poller] (1700000000000 - 100000000)))
     (handleFallbackPoll (quiet_env 1700000000000)
        (ex_listener [ok_poller] (1700000000000 - 100000000)))
     = Some [1700000000000 - 100030000] \<and>
   (1700000000000 - 100030000 :: int) < 1700000000000 - 86400000 - 30000 \<and>
   map_option (dates_passed (ex_listener [ok_poller] (1700000000000 - 100000000)))
     (handleChangeEvent (quiet_env 1700000000000)
        (ex_listener [ok_poller] (1700000000000 - 100000000)))
     = Some [1700000000000 - 86400000 - 30000]"
  by (simp add: listener_eval)

section \<open>Errors inside a cycle\<close>

text \<open>
  Claim C5. Let a cycle of either trigger start with the lock free, and let the Poller
  \<open>p\<close> raise \<open>e\<close> at the cycle's date while the Pollers registered before it return
  results that are emitted without error. Then the cycle returns to its trigger normally;
  exactly the Pollers up to and including \<open>p\<close> have been invoked, none of those
  registered after it; the last log entry is the error line for \<open>e\<close>; and the previous
  check time and the number of \<open>trimCaches\<close> calls are what they were before the cycle.
\<close>

theorem poller_error_aborts_cycle:
  assumes "0 < processLock s"
    and "pollers s = ps1 @ p # ps2"
    and "w = cycle_afterTime trig (lastCheck s) (now env)"
    and "list_all (poller_ok env w) ps1"
    and "p w = Inl e"
  shows "\<exists>s'. run_cycle (trig, env) s = Some s' \<and>
           polled s' = polled s @ map (\<lambda>i. (i, w)) [0..<Suc (length ps1)] \<and>
           lastCheck s' = lastCheck s \<and> trims s' = trims s \<and>
           last (log s') = Error (cycle_error_text trig @ as_string e) \<and>
           processLock s' = processLock s"
proof -
  from run_cycle_summary [OF assms(1), of trig env]
  obtain s' r s2 pre where c: "run_cycle (trig, env) s = Some s'"
    "poll env w True (s\<lparr>processLock := processLock s - 1, log := log s @ pre\<rparr>) = (r, s2)"
    "processLock s' = processLock s" "polled s' = polled s2"
    "case r of
        Inl e \<Rightarrow> lastCheck s' = lastCheck s \<and> trims s' = trims s \<and>
                 log s' = log s @ pre @ [Error (cycle_error_text trig @ as_string e)]
      | Inr u \<Rightarrow> lastCheck s' = now env \<and> trims s' = Suc (trims s)"
    unfolding assms(3) by blast
  let ?s1 = "s\<lparr>processLock := processLock s - 1, log := log s @ pre\<rparr>"
  have "pollers ?s1 = ps1 @ p # ps2" using assms(2) by simp
  from poll_abort [OF this assms(4) assms(5)] c(2)
  have r: "r = Inl e" and p2: "polled s2 = polled s @ map (\<lambda>i. (i, w)) [0..<Suc (length ps1)]"
    by auto
  from c(5) r have "lastCheck s' = lastCheck s" "trims s' = trims s"
    "last (log s') = Error (cycle_error_text trig @ as_string e)"
    by simp_all
  with c(1,3,4) p2 show ?thesis by simp
qed

text \<open>A debounced cycle over three Pollers, the second of which raises.\<close>

theorem poller_error_aborts_cycle_witness:
  "0 < processLock (ex_listener [ok_poller, bad_poller, ok_poller] 1699999990000) \<and>
   pollers (ex_listener [ok_poller, bad_poller, ok_poller] 1699999990000) =
     [ok_poller] @ bad_poller # [ok_poller] \<and>
   list_all (poller_ok (quiet_env 1700000000000) 1699999960000) [ok_poller] \<and>
   bad_poller 1699999960000 = Inl boom \<and>
   map_option (\<lambda>s'. (polled s', lastCheck s', trims s', last (log s'), processLock s'))
     (run_cycle (Debounced, quiet_env 1700000000000)
        (ex_listener [ok_poller, bad_poller, ok_poller] 1699999990000)) =
     Some ([(0, 1699999960000), (1, 1699999960000)], 1699999990000, 0,
           Error ''Error handling change event: Error: boom'', 1)"
  using poller_error_aborts_cycle [of "ex_listener [ok_poller, bad_poller, ok_poller] 1699999990000"
      "[ok_poller]" bad_poller "[ok_poller]" 1699999960000 Debounced "quiet_env 1700000000000" boom]
  by (simp add: listener_eval)

text \<open>
  Claim C10. Started with the lock free, every finite sequence of cycles of either
  trigger, whatever the Pollers, the emission and \<open>trimCaches\<close> do in each of them, runs
  to its end and leaves the lock free: no cycle waits for a permit that a failed cycle
  kept.
\<close>

theorem lock_free_after_cycles:
  assumes "processLock s = 1"
  shows "\<exists>s'. run_cycles cs s = Some s' \<and> processLock s' = 1"
  using run_cycles_lock [of s cs] assms by simp

text \<open>
  Three cycles over a Poller that raises, the second one with an emission that raises
  before the failing Poller is reached.
\<close>

theorem lock_free_after_cycles_witness:
  "processLock (ex_listener [ok_poller, bad_poller] 1699999990000) = 1 \<and>
   map_option processLock
     (run_cycles
        [(Debounced, quiet_env 1700000000000),
         (Fallback, (quiet_env 1700000004000)\<lparr>emit := (\<lambda>r. Some boom)\<rparr>),
         (Debounced, quiet_env 1700000009000)]
        (ex_listener [ok_poller, bad_poller] 1699999990000)) = Some 1"
  using lock_free_after_cycles [of "ex_listener [ok_poller, bad_poller] 1699999990000"
        "[(Debounced, quiet_env 1700000000000),
         (Fallback, (quiet_env 1700000004000)\<lparr>emit := (\<lambda>r. Some boom)\<rparr>),
         (Debounced, quiet_env 1700000009000)]"]
  by (simp add: listener_eval)

section \<open>Properties of the subscription cache and the dispatcher\<close>

lemma parse_webhooks_keeps:
  "parse_webhooks env ws s = (r, s') \<Longrightarrow>
     posts s' = posts s \<and> debug_log s' = debug_log s \<and> store_reads s' = store_reads s \<and>
     webhookCache s' = webhookCache s \<and> cacheExpiry s' = cacheExpiry s"
proof (induction ws arbitrary: s r s')
  case Nil
  then show ?case by simp
next
  case (Cons w ws)
  let ?s1 = "s\<lparr>parsed := parsed s @ [events w]\<rparr>"
  show ?case
  proof (cases "JSON_parse env (events w)")
    case (Inl e)
    with Cons.prems show ?thesis by (auto simp: Let_def)
  next
    case (Inr ts)
    obtain r1 s2 where p: "parse_webhooks env ws ?s1 = (r1, s2)"
      by (cases "parse_webhooks env ws ?s1")
    from Cons.prems Inr p have "s' = s2" by (auto simp: Let_def split: sum.splits)
    with Cons.IH [OF p] show ?thesis by simp
  qed
qed

lemma parse_webhooks_parsed:
  "parse_webhooks env ws s = (Inr cws, s') \<Longrightarrow>
     parsed s' = parsed s @ map events ws \<and> map webhook cws = ws \<and>
     map (\<lambda>cw. Inr (eventTypes cw)) cws = map (\<lambda>w. JSON_parse env (events w)) ws"
proof (induction ws arbitrary: s cws s')
  case Nil
  then show ?case by auto
next
  case (Cons w ws)
  let ?s1 = "s\<lparr>parsed := parsed s @ [events w]\<rparr>"
  obtain r1 s2 where p: "parse_webhooks env ws ?s1 = (r1, s2)"
    by (cases "parse_webhooks env ws ?s1")
  from Cons.prems p obtain ts cws1 where
    t: "JSON_parse env (events w) = Inr ts" "r1 = Inr cws1"
       "cws = \<lparr>webhook = w, eventTypes = ts\<rparr> # cws1" "s' = s2"
    by (auto simp: Let_def split: sum.splits)
  from Cons.IH [of ?s1 cws1 s2] p t(2) have
    "parsed s2 = parsed ?s1 @ map events ws \<and> map webhook cws1 = ws \<and>
     map (\<lambda>cw. Inr (eventTypes cw)) cws1 = map (\<lambda>w. JSON_parse env (events w)) ws"
    by simp
  with t show ?case by simp
qed

lemma parse_webhooks_post_free:
  "parse_webhooks (env\<lparr>axios_post := f\<rparr>) ws s = parse_webhooks env ws s"
  by (induction ws arbitrary: s) (simp_all add: Let_def split: sum.splits)

lemma getWebhooksWithCache_post_free:
  "getWebhooksWithCache (env\<lparr>axios_post := f\<rparr>) s = getWebhooksWithCache env s"
  by (simp add: getWebhooksWithCache_def parse_webhooks_post_free Let_def split: sum.splits)

lemma getWebhooksWithCache_hit:
  "webhookCache s = Some c \<Longrightarrow> clock env < cacheExpiry s \<Longrightarrow>
     getWebhooksWithCache env s = (Inr c, s)"
  by (simp add: getWebhooksWithCache_def)

lemma getWebhooksWithCache_miss:
  assumes "webhookCache s = None \<or> cacheExpiry s \<le> clock env"
  shows "getWebhooksWithCache env s =
     (case getWebhooks env of
        Inl e \<Rightarrow> (Inl e, s\<lparr>store_reads := store_reads s + 1\<rparr>)
      | Inr webhooks \<Rightarrow>
          (case parse_webhooks env webhooks (s\<lparr>store_reads := store_reads s + 1\<rparr>) of
             (Inl e, s2) \<Rightarrow> (Inl e, s2)
           | (Inr cws, s2) \<Rightarrow>
               (Inr cws, s2\<lparr>webhookCache := Some cws, cacheExpiry := clock env + 30000\<rparr>)))"
  using assms
  by (auto simp: getWebhooksWithCache_def CACHE_TTL_MS_def Let_def split: sum.splits prod.splits)

lemma getWebhooksWithCache_keeps:
  assumes "getWebhooksWithCache env s = (r, s')"
  shows "posts s' = posts s \<and> debug_log s' = debug_log s"
proof (cases "webhookCache s \<noteq> None \<and> clock env < cacheExpiry s")
  case True
  with assms show ?thesis by (auto simp: getWebhooksWithCache_def)
next
  case False
  then have m: "webhookCache s = None \<or> cacheExpiry s \<le> clock env" by auto
  show ?thesis
  proof (cases "getWebhooks env")
    case (Inl e)
    with assms getWebhooksWithCache_miss [OF m] show ?thesis by auto
  next
    case (Inr ws)
    obtain r1 s2 where p: "parse_webhooks env ws (s\<lparr>store_reads := store_reads s + 1\<rparr>) = (r1, s2)"
      by (cases "parse_webhooks env ws (s\<lparr>store_reads := store_reads s + 1\<rparr>)")
    from parse_webhooks_keeps [OF p] have k: "posts s2 = posts s" "debug_log s2 = debug_log s"
      by simp_all
    from assms getWebhooksWithCache_miss [OF m] Inr p k show ?thesis
      by (cases r1) auto
  qed
qed

lemma dispatch_posts:
  assumes "fst (getWebhooksWithCache env s) = Inr cws"
  shows "fst (dispatch env event s) = Inr () \<and>
         posts (snd (dispatch env event s)) =
           posts s @ map (\<lambda>cw. (url (webhook cw), event)) (filter (applicable event) cws) \<and>
         debug_log (snd (dispatch env event s)) =
           debug_log s @
           map (\<lambda>cw. Debug (''Dispatching event to webhook: '' @ url (webhook cw)))
             (filter (applicable event) cws) @
           concat (map (delivery_log env event) (enumerate 0 (filter (applicable event) cws)))"
proof -
  obtain s1 where g: "getWebhooksWithCache env s = (Inr cws, s1)"
    using assms by (cases "getWebhooksWithCache env s") simp
  note k = getWebhooksWithCache_keeps [OF g]
  show ?thesis
  proof (cases "filter (applicable event) cws = []")
    case True
    with g k show ?thesis by (simp add: dispatch_def)
  next
    case False
    with g k show ?thesis by (simp add: dispatch_def Let_def)
  qed
qed

lemmas service_eval =
  dispatch_def getWebhooksWithCache_def invalidateCache_def applicable_def delivery_log_def
  new_service_def ex_env_def ex_parse_def ex_webhooks_def ex_matching_def ex_event_def
  second_fails_def refused_def boom_def syntax_error_def ex_cached_def CACHE_TTL_MS_def show_opt_def Let_def

section \<open>Dispatch\<close>



text \<open>
  Claim C8. When the request to one of the matching subscriptions fails, \<open>dispatch\<close>
  still returns normally, a request has been started for every matching subscription,
  the requests started are the same whatever the outcome of any request, and the log
  holds the three lines of the failure: the target, the error and the status text.
\<close>

theorem delivery_failure_is_isolated:
  assumes "fst (getWebhooksWithCache env s) = Inr cws"
    and "targets = filter (applicable event) cws"
    and "i < length targets"
    and "axios_post env i (url (webhook (targets ! i))) event = Some ex"
  shows "fst (dispatch env event s) = Inr () \<and>
         posts (snd (dispatch env event s)) =
           posts s @ map (\<lambda>cw. (url (webhook cw), event)) targets \<and>
         posts (snd (dispatch (env\<lparr>axios_post := other\<rparr>) event s)) =
           posts (snd (dispatch env event s)) \<and>
         set [Debug (''Failed to dispatch \"'' @ type event @ ''\" event to webhook: '' @
                     url (webhook (targets ! i))),
              Debug (''  -> Error: '' @ (case message ex of Some m \<Rightarrow> m | None \<Rightarrow> as_string ex)),
              Debug (''  -> Status Text: '' @ show_opt (statusText ex))]
           \<subseteq> set (debug_log (snd (dispatch env event s)))"
proof -
  note d = dispatch_posts [OF assms(1), of event]
  have "fst (getWebhooksWithCache (env\<lparr>axios_post := other\<rparr>) s) = Inr cws"
    using assms(1) by (simp add: getWebhooksWithCache_post_free)
  note d' = dispatch_posts [OF this, of event]
  have "(i, targets ! i) \<in> set (enumerate 0 targets)"
    using assms(3) by (simp add: in_set_enumerate_eq)
  then have "set (delivery_log env event (i, targets ! i)) \<subseteq>
             set (concat (map (delivery_log env event) (enumerate 0 targets)))"
    by auto
  moreover have "delivery_log env event (i, targets ! i) =
             [Debug (''Failed to dispatch \"'' @ type event @ ''\" event to webhook: '' @
                     url (webhook (targets ! i))),
              Debug (''  -> Error: '' @ (case message ex of Some m \<Rightarrow> m | None \<Rightarrow> as_string ex)),
              Debug (''  -> Status Text: '' @ show_opt (statusText ex))]"
    using assms(4) by (simp add: delivery_log_def)
  ultimately have "set [Debug (''Failed to dispatch \"'' @ type event @ ''\" event to webhook: '' @
                     url (webhook (targets ! i))),
              Debug (''  -> Error: '' @ (case message ex of Some m \<Rightarrow> m | None \<Rightarrow> as_string ex)),
              Debug (''  -> Status Text: '' @ show_opt (statusText ex))]
           \<subseteq> set (debug_log (snd (dispatch env event s)))"
    using d assms(2) by auto
  with d d' assms(2) show ?thesis by simp
qed

text \<open>Three matching subscriptions, the request to the second refused.\<close>

theorem delivery_failure_is_isolated_witness:
  "fst (getWebhooksWithCache ((ex_env 1000 (Inr ex_matching))\<lparr>axios_post := second_fails\<rparr>)
          new_service) = Inr ex_cached \<and>
   ex_cached = filter (applicable ex_event) ex_cached \<and>
   1 < length ex_cached \<and>
   second_fails 1 (url (webhook (ex_cached ! 1))) ex_event = Some refused \<and>
   fst (dispatch ((ex_env 1000 (Inr ex_matching))\<lparr>axios_post := second_fails\<rparr>) ex_event
          new_service) = Inr () \<and>
   posts (snd (dispatch ((ex_env 1000 (Inr ex_matching))\<lparr>axios_post := second_fails\<rparr>) ex_event
                 new_service)) =
     [(''http://a'', ex_event), (''http://b'', ex_event), (''http://c'', ex_event)] \<and>
   debug_log (snd (dispatch ((ex_env 1000 (Inr ex_matching))\<lparr>axios_post := second_fails\<rparr>)
                     ex_event new_service)) =
     [Debug ''Dispatching event to webhook: http://a'',
      Debug ''Dispatching event to webhook: http://b'',
      Debug ''Dispatching event to webhook: http://c'',
      Debug ''Failed to dispatch \"msg-new\" event to webhook: http://b'',
      Debug ''  -> Error: connect ECONNREFUSED'',
      Debug ''  -> Status Text: undefined'']"
  using delivery_failure_is_isolated
    [of "(ex_env 1000 (Inr ex_matching))\<lparr>axios_post := second_fails\<rparr>" new_service ex_cached
        ex_cached ex_event 1 refused "\<lambda>i u e. None"]
  by (simp add: service_eval)

lemma dispatch_outcome:
  assumes "getWebhooksWithCache env s = (r, s1)"
  shows "fst (dispatch env event s) = (case r of Inl e \<Rightarrow> Inl e | Inr cws \<Rightarrow> Inr ()) \<and>
         webhookCache (snd (dispatch env event s)) = webhookCache s1 \<and>
         cacheExpiry (snd (dispatch env event s)) = cacheExpiry s1 \<and>
         store_reads (snd (dispatch env event s)) = store_reads s1 \<and>
         parsed (snd (dispatch env event s)) = parsed s1"
  using assms by (cases r) (simp_all add: dispatch_def Let_def)

lemma getWebhooksWithCache_miss_reads:
  assumes "webhookCache s = None \<or> cacheExpiry s \<le> clock env"
  shows "store_reads (snd (getWebhooksWithCache env s)) = store_reads s + 1"
proof (cases "getWebhooks env")
  case (Inl e)
  with getWebhooksWithCache_miss [OF assms] show ?thesis by simp
next
  case (Inr ws)
  obtain r1 s2 where p: "parse_webhooks env ws (s\<lparr>store_reads := store_reads s + 1\<rparr>) = (r1, s2)"
    by (cases "parse_webhooks env ws (s\<lparr>store_reads := store_reads s + 1\<rparr>)")
  from parse_webhooks_keeps [OF p] have "store_reads s2 = store_reads s + 1" by simp
  with getWebhooksWithCache_miss [OF assms] Inr p show ?thesis by (cases r1) simp_all
qed

lemma getWebhooksWithCache_fill:
  assumes "webhookCache s = None \<or> cacheExpiry s \<le> clock env"
    and "getWebhooks env = Inr ws"
    and "getWebhooksWithCache env s = (Inr cws, s1)"
  shows "webhookCache s1 = Some cws \<and> cacheExpiry s1 = clock env + 30000 \<and>
         store_reads s1 = store_reads s + 1 \<and> parsed s1 = parsed s @ map events ws"
proof -
  obtain r1 s2 where p: "parse_webhooks env ws (s\<lparr>store_reads := store_reads s + 1\<rparr>) = (r1, s2)"
    by (cases "parse_webhooks env ws (s\<lparr>store_reads := store_reads s + 1\<rparr>)")
  from getWebhooksWithCache_miss [OF assms(1)] assms(2,3) p
  have r1: "r1 = Inr cws" and s1: "s1 = s2\<lparr>webhookCache := Some cws, cacheExpiry := clock env + 30000\<rparr>"
    by (cases r1; simp)+
  from parse_webhooks_keeps [OF p] parse_webhooks_parsed [OF p [unfolded r1]] s1
  show ?thesis by simp
qed

section \<open>The subscription cache\<close>

text \<open>
  Claim C6. Let a first \<open>dispatch\<close> find no valid cache entry, read the registrations
  \<open>ws\<close> from the store and succeed, and let a second \<open>dispatch\<close> follow at a clock
  reading less than 30000 ms after the first. Then the store has been read once, by the
  first call, and the serialized filter list of each registration has been parsed once.
  \<open>invalidateCache\<close> between the two calls empties the cache whatever its expiry, and
  the second call reads the store again.
\<close>

theorem cache_reads_store_once:
  assumes "webhookCache s = None \<or> cacheExpiry s \<le> clock e1"
    and "getWebhooks e1 = Inr ws"
    and "fst (dispatch e1 ev1 s) = Inr ()"
    and "clock e2 < clock e1 + 30000"
  shows "store_reads (snd (dispatch e1 ev1 s)) = store_reads s + 1 \<and>
         store_reads (snd (dispatch e2 ev2 (snd (dispatch e1 ev1 s)))) = store_reads s + 1 \<and>
         parsed (snd (dispatch e2 ev2 (snd (dispatch e1 ev1 s)))) = parsed s @ map events ws \<and>
         webhookCache (invalidateCache (snd (dispatch e1 ev1 s))) = None \<and>
         store_reads (snd (dispatch e2 ev2 (invalidateCache (snd (dispatch e1 ev1 s))))) =
           store_reads s + 2"
proof -
  let ?t = "snd (dispatch e1 ev1 s)"
  obtain r s1 where g: "getWebhooksWithCache e1 s = (r, s1)"
    by (cases "getWebhooksWithCache e1 s")
  note d1 = dispatch_outcome [OF g, of ev1]
  from d1 assms(3) obtain cws where r: "r = Inr cws" by (cases r) simp_all
  note f = getWebhooksWithCache_fill [OF assms(1,2) g [unfolded r]]
  from d1 f have t: "webhookCache ?t = Some cws" "cacheExpiry ?t = clock e1 + 30000"
    "store_reads ?t = store_reads s + 1" "parsed ?t = parsed s @ map events ws"
    by simp_all
  from t(1,2) assms(4) have h: "getWebhooksWithCache e2 ?t = (Inr cws, ?t)"
    by (simp add: getWebhooksWithCache_hit)
  note d2 = dispatch_outcome [OF h, of ev2]
  let ?u = "invalidateCache ?t"
  have u: "webhookCache ?u = None" "store_reads ?u = store_reads ?t"
    by (simp_all add: invalidateCache_def)
  obtain r3 s3 where g3: "getWebhooksWithCache e2 ?u = (r3, s3)"
    by (cases "getWebhooksWithCache e2 ?u")
  from getWebhooksWithCache_miss_reads [of ?u e2] u g3
  have "store_reads s3 = store_reads ?t + 1" by simp
  with dispatch_outcome [OF g3, of ev2] t(3)
  have "store_reads (snd (dispatch e2 ev2 ?u)) = store_reads s + 2" by simp
  with t d2 u(1) show ?thesis by simp
qed

text \<open>Two calls 29999 ms apart, with and without an invalidation between them.\<close>

theorem cache_reads_store_once_witness:
  "(webhookCache new_service = None \<or> cacheExpiry new_service \<le> clock (ex_env 1000 (Inr ex_webhooks))) \<and>
   getWebhooks (ex_env 1000 (Inr ex_webhooks)) = Inr ex_webhooks \<and>
   fst (dispatch (ex_env 1000 (Inr ex_webhooks)) ex_event new_service) = Inr () \<and>
   clock (ex_env 30999 (Inr [])) < clock (ex_env 1000 (Inr ex_webhooks)) + 30000 \<and>
   store_reads (snd (dispatch (ex_env 30999 (Inr [])) ex_event
                       (snd (dispatch (ex_env 1000 (Inr ex_webhooks)) ex_event new_service)))) = 1 \<and>
   parsed (snd (dispatch (ex_env 30999 (Inr [])) ex_event
                  (snd (dispatch (ex_env 1000 (Inr ex_webhooks)) ex_event new_service)))) =
     [''[\"*\"]'', ''[\"msg-new\"]'', ''[\"msg-deleted\"]''] \<and>
   store_reads (snd (dispatch (ex_env 30999 (Inr [])) ex_event
                       (invalidateCache
                          (snd (dispatch (ex_env 1000 (Inr ex_webhooks)) ex_event new_service))))) = 2"
  using cache_reads_store_once
    [of new_service "ex_env 1000 (Inr ex_webhooks)" ex_webhooks ex_event "ex_env 30999 (Inr [])" ex_event]
  by (simp add: service_eval)

section \<open>The service over JSON values\<close>

lemma parse_webhooks_json_keeps:
  "parse_webhooks_json env ws s = (r, s') \<Longrightarrow>
     posts_json s' = posts_json s \<and> debug_log_json s' = debug_log_json s \<and>
     store_reads_json s' = store_reads_json s \<and> webhookCache_json s' = webhookCache_json s \<and>
     cacheExpiry_json s' = cacheExpiry_json s"
proof (induction ws arbitrary: s r s')
  case Nil
  then show ?case by simp
next
  case (Cons w ws)
  let ?s1 = "s\<lparr>parsed_json := parsed_json s @ [events w]\<rparr>"
  show ?case
  proof (cases "JSON_parse_json env (events w)")
    case (Inl e)
    with Cons.prems show ?thesis by (auto simp: Let_def)
  next
    case (Inr v)
    obtain r1 s2 where p: "parse_webhooks_json env ws ?s1 = (r1, s2)"
      by (cases "parse_webhooks_json env ws ?s1")
    from Cons.prems Inr p have "s' = s2" by (auto simp: Let_def split: sum.splits)
    with Cons.IH [OF p] show ?thesis by simp
  qed
qed




lemma getWebhooksWithCache_json_miss:
  assumes "webhookCache_json s = None \<or> cacheExpiry_json s \<le> clock_json env"
  shows "getWebhooksWithCache_json env s =
     (case getWebhooks_json env of
        Inl e \<Rightarrow> (Inl e, s\<lparr>store_reads_json := store_reads_json s + 1\<rparr>)
      | Inr webhooks \<Rightarrow>
          (case parse_webhooks_json env webhooks (s\<lparr>store_reads_json := store_reads_json s + 1\<rparr>) of
             (Inl e, s2) \<Rightarrow> (Inl e, s2)
           | (Inr cws, s2) \<Rightarrow>
               (Inr cws,
                s2\<lparr>webhookCache_json := Some cws, cacheExpiry_json := clock_json env + 30000\<rparr>)))"
  using assms
  by (auto simp: getWebhooksWithCache_json_def CACHE_TTL_MS_def Let_def
           split: sum.splits prod.splits)


lemma not_includable_includes:
  "js_includes v t = Inl e \<Longrightarrow> js_includes v t' = Inl e"
  by (cases v) simp_all






lemma js_includes_typed: "js_includes (json_of_types ts) t = Inr (t \<in> set ts)"
  by (auto simp: json_of_types_def)

lemma applicable_json_typed:
  "applicable_json event (json_of_cached cw) = Inr (applicable event cw)"
  by (simp add: applicable_json_def json_of_cached_def js_includes_typed applicable_def)

lemma filter_json_typed:
  "filter_json event (map json_of_cached cws) =
     Inr (map json_of_cached (filter (applicable event) cws))"
  by (induction cws) (simp_all add: applicable_json_typed)

lemma parse_webhooks_json_typed:
  "parse_webhooks env ws s = (r, s') \<Longrightarrow>
   parse_webhooks_json (json_of_env env) ws (json_of_service s) =
     (case r of Inl e \<Rightarrow> Inl e | Inr cws \<Rightarrow> Inr (map json_of_cached cws), json_of_service s')"
proof (induction ws arbitrary: s r s')
  case Nil
  then show ?case by auto
next
  case (Cons w ws)
  let ?s1 = "s\<lparr>parsed := parsed s @ [events w]\<rparr>"
  have j: "json_of_service s\<lparr>parsed_json := parsed_json (json_of_service s) @ [events w]\<rparr> =
           json_of_service ?s1"
    by (simp add: json_of_service_def)
  show ?case
  proof (cases "JSON_parse env (events w)")
    case (Inl e)
    with Cons.prems j show ?thesis
      by (auto simp: Let_def json_of_env_def)
  next
    case (Inr ts)
    obtain r1 s2 where p: "parse_webhooks env ws ?s1 = (r1, s2)"
      by (cases "parse_webhooks env ws ?s1")
    note ih = Cons.IH [OF p]
    from Cons.prems Inr p have s': "s' = s2"
      and r: "r = (case r1 of Inl e \<Rightarrow> Inl e
                   | Inr cws \<Rightarrow> Inr (\<lparr>webhook = w, eventTypes = ts\<rparr> # cws))"
      by (auto simp: Let_def split: sum.splits)
    have "JSON_parse_json (json_of_env env) (events w) = Inr (json_of_types ts)"
      using Inr by (simp add: json_of_env_def)
    with ih j s' r show ?thesis
      by (cases r1) (simp_all add: Let_def json_of_cached_def)
  qed
qed

lemma getWebhooksWithCache_json_typed:
  assumes "getWebhooksWithCache env s = (r, s')"
  shows "getWebhooksWithCache_json (json_of_env env) (json_of_service s) =
     (case r of Inl e \<Rightarrow> Inl e | Inr cws \<Rightarrow> Inr (map json_of_cached cws), json_of_service s')"
proof (cases "webhookCache s \<noteq> None \<and> clock env < cacheExpiry s")
  case True
  with assms show ?thesis
    by (auto simp: getWebhooksWithCache_def getWebhooksWithCache_json_def json_of_service_def
                   json_of_env_def)
next
  case False
  then have m: "webhookCache s = None \<or> cacheExpiry s \<le> clock env" by auto
  then have mj: "webhookCache_json (json_of_service s) = None \<or>
                 cacheExpiry_json (json_of_service s) \<le> clock_json (json_of_env env)"
    by (auto simp: json_of_service_def json_of_env_def)
  let ?s0 = "s\<lparr>store_reads := store_reads s + 1\<rparr>"
  have j: "json_of_service s\<lparr>store_reads_json := store_reads_json (json_of_service s) + 1\<rparr> =
           json_of_service ?s0"
    by (simp add: json_of_service_def)
  have c: "clock_json (json_of_env env) = clock env"
    "getWebhooks_json (json_of_env env) = getWebhooks env"
    by (simp_all add: json_of_env_def)
  show ?thesis
  proof (cases "getWebhooks env")
    case (Inl e)
    with assms getWebhooksWithCache_miss [OF m] getWebhooksWithCache_json_miss [OF mj] j c
    show ?thesis by auto
  next
    case (Inr ws)
    obtain r1 s2 where p: "parse_webhooks env ws ?s0 = (r1, s2)"
      by (cases "parse_webhooks env ws ?s0")
    note pj = parse_webhooks_json_typed [OF p]
    show ?thesis
    proof (cases r1)
      case (Inl e)
      with assms getWebhooksWithCache_miss [OF m] getWebhooksWithCache_json_miss [OF mj] j c Inr p pj
      show ?thesis by auto
    next
      case cws: (Inr cws)
      have "json_of_service s2\<lparr>webhookCache_json := Some (map json_of_cached cws),
                               cacheExpiry_json := clock env + 30000\<rparr> =
            json_of_service (s2\<lparr>webhookCache := Some cws, cacheExpiry := clock env + 30000\<rparr>)"
        by (simp add: json_of_service_def)
      with assms getWebhooksWithCache_miss [OF m] getWebhooksWithCache_json_miss [OF mj] j c Inr p pj cws
      show ?thesis by auto
    qed
  qed
qed

lemma delivery_log_json_one:
  "delivery_log_json (json_of_env env) event (i, json_of_cached cw) =
   delivery_log env event (i, cw)"
  by (simp add: delivery_log_json_def delivery_log_def json_of_env_def json_of_cached_def
           split: option.splits)

lemma delivery_log_json_typed:
  "concat (map (delivery_log_json (json_of_env env) event) (enumerate n (map json_of_cached xs))) =
   concat (map (delivery_log env event) (enumerate n xs))"
  by (induction xs arbitrary: n) (simp_all add: delivery_log_json_one)

lemma dispatch_json_typed:
  "dispatch_json (json_of_env env) event (json_of_service s) =
     (fst (dispatch env event s), json_of_service (snd (dispatch env event s)))"
proof -
  obtain r s1 where g: "getWebhooksWithCache env s = (r, s1)"
    by (cases "getWebhooksWithCache env s")
  note gj = getWebhooksWithCache_json_typed [OF g]
  show ?thesis
  proof (cases r)
    case (Inl e)
    with g gj show ?thesis by (simp add: dispatch_def dispatch_json_def)
  next
    case (Inr cws)
    show ?thesis
    proof (cases "filter (applicable event) cws = []")
      case True
      with g gj Inr show ?thesis
        by (simp add: dispatch_def dispatch_json_def filter_json_typed)
    next
      case False
      with g gj Inr show ?thesis
        by (simp add: dispatch_def dispatch_json_def filter_json_typed Let_def
                      delivery_log_json_typed json_of_service_def comp_def json_of_cached_def)
    qed
  qed
qed

section \<open>Errors that leave dispatch\<close>





section \<open>Bursts of notifications\<close>

lemma notify_in_burst:
  assumes "timers st key = Some (t0 + wait)" and "t0 \<le> t" and "t - t0 < wait"
  shows "timers (notify key wait st t) key = Some (t + wait) \<and> fired (notify key wait st t) = fired st"
  using assms by (simp add: notify_def expire_def scheduleOrReset_def)

lemma foldl_notify_burst:
  assumes "timers st key = Some (t0 + wait)" and "burst wait (t0 # ts)"
  shows "timers (foldl (notify key wait) st ts) key = Some (last (t0 # ts) + wait) \<and>
         fired (foldl (notify key wait) st ts) = fired st"
  using assms
proof (induction ts arbitrary: st t0)
  case Nil
  then show ?case by simp
next
  case (Cons t ts)
  from Cons.prems have b: "t0 \<le> t" "t - t0 < wait" "burst wait (t # ts)" by simp_all
  note n = notify_in_burst [OF Cons.prems(1) b(1,2)]
  from Cons.IH [of "notify key wait st t" t] n b(3)
  show ?case by simp
qed

text \<open>
  Claim C9. For a burst of one or more change notifications in which each arrives less
  than 500 ms after the one before, the debounced trigger runs the handler exactly once,
  500 ms after the last notification. Entered with the lock free, that run is one poll
  cycle: it returns, it invokes the Pollers in registration order, each at most once and
  at least the first, with the debounced window computed at that run, and it frees the
  lock again; when no Poller and no emission raises, every Poller is invoked exactly once
  and the cycle completes with the previous check time set to the clock reading of the
  run.
\<close>

theorem burst_runs_one_cycle:
  assumes "ts \<noteq> []" and "burst 500 ts" and "0 < processLock s"
    and "w = changeAfterTime (lastCheck s) (now (env_at (last ts + 500)))"
  shows "debounce_fires ''IMessageListener.handleChangeEvent'' 500 ts = [last ts + 500] \<and>
         (\<exists>s' k. run_cycles (map (\<lambda>d. (Debounced, env_at d))
                              (debounce_fires ''IMessageListener.handleChangeEvent'' 500 ts)) s =
                    Some s' \<and>
                  k \<le> length (pollers s) \<and> (pollers s \<noteq> [] \<longrightarrow> 0 < k) \<and>
                  polled s' = polled s @ map (\<lambda>i. (i, w)) [0..<k] \<and>
                  processLock s' = processLock s \<and>
                  (list_all (poller_ok (env_at (last ts + 500)) w) (pollers s) \<longrightarrow>
                     k = length (pollers s) \<and> lastCheck s' = now (env_at (last ts + 500)) \<and>
                     trims s' = Suc (trims s)))"
proof -
  let ?key = "''IMessageListener.handleChangeEvent''"
  let ?init = "\<lparr>timers = (\<lambda>k. None), fired = []\<rparr>"
  from assms(1) obtain t0 rest where ts: "ts = t0 # rest" by (cases ts) auto
  have n: "timers (notify ?key 500 ?init t0) ?key = Some (t0 + 500)"
    "fired (notify ?key 500 ?init t0) = []"
    by (simp_all add: notify_def expire_def scheduleOrReset_def)
  from foldl_notify_burst [OF n(1), of rest] assms(2) ts n(2)
  have "timers (foldl (notify ?key 500) ?init ts) ?key = Some (last ts + 500)"
    "fired (foldl (notify ?key 500) ?init ts) = []"
    by simp_all
  then have f: "debounce_fires ?key 500 ts = [last ts + 500]"
    by (simp add: debounce_fires_def Let_def)
  have w: "w = cycle_afterTime Debounced (lastCheck s) (now (env_at (last ts + 500)))"
    using assms(4) by (simp add: cycle_afterTime_def)
  from run_cycle_polled [OF assms(3) w]
  obtain s' k where c: "run_cycle (Debounced, env_at (last ts + 500)) s = Some s'"
    "k \<le> length (pollers s)" "pollers s \<noteq> [] \<longrightarrow> 0 < k"
    "polled s' = polled s @ map (\<lambda>i. (i, w)) [0..<k]"
    "processLock s' = processLock s"
    "list_all (poller_ok (env_at (last ts + 500)) w) (pollers s) \<longrightarrow>
       k = length (pollers s) \<and> lastCheck s' = now (env_at (last ts + 500)) \<and>
       trims s' = Suc (trims s)"
    by blast
  from c(1) have "run_cycles (map (\<lambda>d. (Debounced, env_at d)) [last ts + 500]) s = Some s'"
    by simp
  with c(2-6) f show ?thesis by (simp only:) blast
qed

text \<open>
  Three notifications 200 and 450 ms apart before two Pollers: one cycle, 500 ms after the
  third, in which each Poller is invoked once.
\<close>

theorem burst_runs_one_cycle_witness:
  "[1700000001000, 1700000001200, 1700000001650] \<noteq> ([] :: int list) \<and>
   burst 500 [1700000001000, 1700000001200, 1700000001650] \<and>
   0 < processLock (ex_listener [ok_poller, ok_poller] 1700000000000) \<and>
   changeAfterTime (lastCheck (ex_listener [ok_poller, ok_poller] 1700000000000))
     (now (quiet_env (last [1700000001000, 1700000001200, 1700000001650] + 500))) = 1699999970000 \<and>
   list_all (poller_ok (quiet_env 1700000002150) 1699999970000)
     (pollers (ex_listener [ok_poller, ok_poller] 1700000000000)) \<and>
   debounce_fires ''IMessageListener.handleChangeEvent'' 500
     [1700000001000, 1700000001200, 1700000001650] = [1700000002150] \<and>
   map_option (\<lambda>s'. (polled s', lastCheck s', trims s', processLock s'))
     (run_cycles
        (map (\<lambda>d. (Debounced, quiet_env d))
           (debounce_fires ''IMessageListener.handleChangeEvent'' 500
              [1700000001000, 1700000001200, 1700000001650]))
        (ex_listener [ok_poller, ok_poller] 1700000000000)) =
     Some ([(0, 1699999970000), (1, 1699999970000)], 1700000002150, 1, 1)"
  using burst_runs_one_cycle
    [of "[1700000001000, 1700000001200, 1700000001650]"
        "ex_listener [ok_poller, ok_poller] 1700000000000" 1699999970000 quiet_env]
  by (simp add: listener_eval debounce_fires_def notify_def expire_def scheduleOrReset_def)

end
